theory Spec2Isabelle
  imports Complex_Main "HOL-Library.Word" "HOL-Library.Sublist"
begin

unbundle bit_operations_syntax

section \<open>Data model of the gyro-aided feature tracker\<close>

text \<open>
  The embedding follows \<^verbatim>\<open>feature-tracker-gyro.cc\<close>. Pixel coordinates are
  \<^verbatim>\<open>double\<close> in the source; they are modelled as \<^typ>\<open>real\<close> (finite values, exact
  comparison). A measurement is the pair (\<^verbatim>\<open>measurement(0)\<close>, \<^verbatim>\<open>measurement(1)\<close>), that
  is (column, row). Image heights, keypoint counts and descriptor sizes are natural
  numbers below \<open>2^31\<close>, so that the source's conversions between \<^verbatim>\<open>uint32_t\<close>,
  \<^verbatim>\<open>size_t\<close> and \<^verbatim>\<open>int\<close> do not wrap, except for \<^verbatim>\<open>image_height - 1\<close> at height
  0, which the source turns into \<open>-1\<close> and the model into \<open>int 0 - 1\<close>. Sums and
  differences of coordinates and search distances are exact, and the conversion of such
  a sum to \<^verbatim>\<open>int\<close> has no range limit: this is the arithmetic of the source as long
  as the sums are representable and within the range of \<^verbatim>\<open>int\<close>, as they are for
  pixel coordinates. The one floating-point product of the source, the threshold, is
  modelled with its rounding. Descriptor sizes stay below \<open>2^29\<close> bytes, so that the
  bit width \<^verbatim>\<open>kdescriptorSizeBytes * 8\<close> does not wrap.
\<close>

datatype error =
    CheckFailed   \<comment> \<open>a failed glog \<^verbatim>\<open>CHECK\<close>: the process aborts\<close>
  | OutOfRange    \<comment> \<open>\<^verbatim>\<open>std::out_of_range\<close> thrown by \<^verbatim>\<open>vector::at\<close>\<close>
  | OutOfBounds   \<comment> \<open>a read or write outside a buffer (undefined behaviour)\<close>

type_synonym byte = "8 word"
type_synonym vec2 = "real \<times> real"

record KeypointData =
  measurement :: vec2
  index :: nat

definition col :: "KeypointData \<Rightarrow> real" where
  "col kp = fst (measurement kp)"

definition row :: "KeypointData \<Rightarrow> real" where
  "row kp = snd (measurement kp)"

record GyroTrackerMatchingData =
  keypoints_kp1_by_y :: "KeypointData list"
  predicted_keypoint_positions_kp1 :: "vec2 list"
  descriptor_size_bytes :: nat

text \<open>
  Modelled from the spec: the header declaring \<^verbatim>\<open>GyroTrackerMatchingData\<close> is not part
  of the sources. The spec (4.2) gives \<^verbatim>\<open>keypoints_kp1_by_y\<close> as the sequence of the N
  keypoints of frame k+1, and (4.3) one predicted position per keypoint of frame k, so
  the two counts are the lengths of these sequences. The field \<open>descriptor_size_bytes\<close>
  is \<^verbatim>\<open>descriptor_size_bytes_\<close> in the source, and \<open>camera\<close> below is the member
  \<^verbatim>\<open>camera_\<close>.
\<close>

definition num_points_kp1 :: "GyroTrackerMatchingData \<Rightarrow> nat" where
  "num_points_kp1 md = length (keypoints_kp1_by_y md)"

definition num_points_k :: "GyroTrackerMatchingData \<Rightarrow> nat" where
  "num_points_k md = length (predicted_keypoint_positions_kp1 md)"

section \<open>The row lookup table\<close>

text \<open>
  The inner \<^verbatim>\<open>while\<close> of the table construction: the cursor \<open>v\<close> advances while the
  keypoint under it has a row strictly below \<open>y\<close>.
\<close>

function advance_v :: "KeypointData list \<Rightarrow> nat \<Rightarrow> nat \<Rightarrow> nat" where
  "advance_v kps y v =
     (if v < length kps \<and> real y > row (kps ! v) then advance_v kps y (v + 1) else v)"
  by pat_completeness auto
termination
  by (relation "measure (\<lambda>(kps, y, v). length kps - v)") auto

declare advance_v.simps [simp del]

text \<open>One iteration of the \<^verbatim>\<open>for\<close> over the rows: state is the cursor and the table.\<close>

definition lut_step :: "KeypointData list \<Rightarrow> nat \<Rightarrow> nat \<times> nat list \<Rightarrow> nat \<times> nat list" where
  "lut_step kps y s = (let v = advance_v kps y (fst s) in (v, snd s @ [v]))"

definition corner_row_LUT :: "KeypointData list \<Rightarrow> nat \<Rightarrow> nat list" where
  "corner_row_LUT kps image_height = snd (fold (lut_step kps) [0..<image_height] (0, []))"

section \<open>The descriptor comparator\<close>

text \<open>
  The \<^verbatim>\<open>while (val)\<close> loop of the comparator: each round clears the lowest set bit of
  \<open>val\<close> and counts it.
\<close>

function count_bits :: "byte \<Rightarrow> nat \<Rightarrow> nat" where
  "count_bits val distance =
     (if val \<noteq> 0 then count_bits (val AND (val - 1)) (distance + 1) else distance)"
  by pat_completeness auto
termination
proof (relation "measure (\<lambda>(val, distance). unat val)")
  show "wf (measure (\<lambda>(val :: byte, distance :: nat). unat val))" by simp
next
  fix val :: byte and distance :: nat
  assume nz: "val \<noteq> 0"
  have "val AND (val - 1) \<le> val - 1" by (rule word_and_le1)
  moreover have "val - 1 < val" using nz by (simp add: word_less_nat_alt unat_minus_one)
     (metis One_nat_def diff_less less_numeral_extra(1) unat_gt_0)
  ultimately have "val AND (val - 1) < val" by simp
  then show "((val AND (val - 1), distance + 1), (val, distance)) \<in> measure (\<lambda>(val, distance). unat val)"
    by (simp add: word_less_nat_alt)
qed

declare count_bits.simps [simp del]

text \<open>
  The body of the comparator's \<^verbatim>\<open>for\<close> loop at byte \<open>i\<close>, and the comparator. The
  source reads \<^verbatim>\<open>*(x + i)\<close> through raw pointers: a descriptor shorter than the byte
  count is a read outside the buffer. The final \<^verbatim>\<open>CHECK_LE\<close> is kept.
\<close>

definition hamming_byte :: "byte list \<Rightarrow> byte list \<Rightarrow> nat \<Rightarrow> nat \<Rightarrow> nat" where
  "hamming_byte x y i distance = count_bits ((x ! i) XOR (y ! i)) distance"

definition hammingDistance512 :: "nat \<Rightarrow> byte list \<Rightarrow> byte list \<Rightarrow> error + nat" where
  "hammingDistance512 kdescriptorSizeBytes x y =
     (if length x < kdescriptorSizeBytes \<or> length y < kdescriptorSizeBytes then Inl OutOfBounds
      else let distance = fold (hamming_byte x y) [0..<kdescriptorSizeBytes] 0
           in if distance \<le> kdescriptorSizeBytes * 8 then Inr distance else Inl CheckFailed)"

text \<open>
  The Hamming distance in the words of the spec: the number of bit positions at which
  the two descriptors of \<open>L\<close> bytes differ.
\<close>

definition differing_bits :: "byte \<Rightarrow> byte \<Rightarrow> nat" where
  "differing_bits a b = length (filter (\<lambda>n. bit a n \<noteq> bit b n) [0..<8])"

definition hamming_spec :: "nat \<Rightarrow> byte list \<Rightarrow> byte list \<Rightarrow> nat" where
  "hamming_spec L x y = (\<Sum>i\<leftarrow>[0..<L]. differing_bits (x ! i) (y ! i))"

section \<open>Collaborators: configuration, camera, frames\<close>

text \<open>
  The three constants are declared in a header that is not part of the sources; they
  are parameters of the model. They are taken as reals, which covers integer values.
  The type of \<^verbatim>\<open>kMatchingThresholdBitsRatio\<close> is declared there too: the product of
  the descriptor bit width and this constant is computed in that floating-point type,
  so its result is the exact product rounded to that type. The rounding is the fourth
  parameter, \<open>roundThresholdProduct\<close>; it leaves every number that the type represents
  as it is, the integers up to \<open>2^24\<close> among them.
\<close>

record TrackerConstants =
  kSmallSearchDistance :: real
  kLargeSearchDistance :: real
  kMatchingThresholdBitsRatio :: real
  roundThresholdProduct :: "real \<Rightarrow> real"

record Camera =
  getId :: nat
  imageHeight :: nat

text \<open>
  Modelled from the spec: \<^verbatim>\<open>VisualFrame\<close> is not part of the sources. The record has
  one field per accessor that \<^verbatim>\<open>track\<close> and \<^verbatim>\<open>matchFeatures\<close> call (spec 6, frame
  capability). The descriptor matrix is a list of columns, one per keypoint, next to its
  row count; the camera geometry is a pointer, \<open>None\<close> when null.
\<close>

record VisualFrame =
  hasKeypointMeasurements :: bool
  hasTrackIds :: bool
  hasDescriptors :: bool
  getCameraGeometry :: "Camera option"
  getTimestampNanoseconds :: int
  getKeypointMeasurements :: "vec2 list"
  getDescriptors :: "byte list list"
  getDescriptorsRows :: nat
  getDescriptorSizeBytes :: nat

text \<open>
  Modelled from the spec: the descriptor accessor of the missing \<^verbatim>\<open>VisualFrame\<close>, a
  byte view of the descriptor of keypoint \<open>i\<close>. There is no such view beyond the last
  descriptor.
\<close>

definition getDescriptor :: "VisualFrame \<Rightarrow> nat \<Rightarrow> error + byte list" where
  "getDescriptor frame i =
     (if i < length (getDescriptors frame) then Inr (getDescriptors frame ! i)
      else Inl OutOfBounds)"

record MatchWithScore =
  index_kp1 :: int
  index_k :: int
  score :: real

datatype StatSample = MatchBits int | NoMatchNumChecked int

section \<open>The windowed matcher\<close>

text \<open>Conversion of a \<^verbatim>\<open>double\<close> to \<^verbatim>\<open>int\<close> truncates towards zero.\<close>

definition trunc_to_int :: "real \<Rightarrow> int" where
  "trunc_to_int x = (if 0 \<le> x then \<lfloor>x\<rfloor> else \<lceil>x\<rceil>)"

definition clamp :: "int \<Rightarrow> int \<Rightarrow> int \<Rightarrow> int" where
  "clamp lower upper inp = min (max inp lower) upper"

definition vec_diff_norm :: "vec2 \<Rightarrow> vec2 \<Rightarrow> real" where
  "vec_diff_norm a b = sqrt ((fst a - fst b)\<^sup>2 + (snd a - snd b)\<^sup>2)"

text \<open>The iterator range \<^verbatim>\<open>[begin() + b, begin() + e)\<close> over the sorted keypoints.\<close>

definition corners_between :: "KeypointData list \<Rightarrow> nat \<Rightarrow> nat \<Rightarrow> KeypointData list" where
  "corners_between kps b e = drop b (take e kps)"

text \<open>The local variables of one iteration of the loop over the keypoints of frame k.\<close>

record SearchState =
  found :: bool
  n_processed_corners :: int
  it_best :: "KeypointData option"
  best_score :: int
  processed_corners_kp1 :: "bool list"

text \<open>
  The part shared by the bodies of each window loop, from the two index
  \<^verbatim>\<open>CHECK\<close>s on: score the candidate \<open>it\<close>, take it when it beats the running best,
  mark it processed. \<open>search_distance\<close> is the search distance of the window.
\<close>

definition score_corner ::
  "nat \<Rightarrow> nat \<Rightarrow> VisualFrame \<Rightarrow> vec2 \<Rightarrow> byte list \<Rightarrow> real \<Rightarrow> KeypointData \<Rightarrow> SearchState
     \<Rightarrow> error + SearchState" where
  "score_corner kdescriptorSizeBytes n_kp1 frame_kp1 predicted descriptor_k search_distance it s =
     (if \<not> index it < n_kp1 then Inl CheckFailed
      else case getDescriptor frame_kp1 (index it) of
        Inl e \<Rightarrow> Inl e
      | Inr descriptor_kp1 \<Rightarrow>
         (case hammingDistance512 kdescriptorSizeBytes descriptor_k descriptor_kp1 of
            Inl e \<Rightarrow> Inl e
          | Inr distance \<Rightarrow>
             (let current_score = int (kdescriptorSizeBytes * 8) - int distance in
              if current_score > best_score s then
                if vec_diff_norm predicted (measurement it) < search_distance * 2 then
                  Inr (s\<lparr>best_score := current_score, it_best := Some it, found := True,
                        processed_corners_kp1 := (processed_corners_kp1 s)[index it := True],
                        n_processed_corners := n_processed_corners s + 1\<rparr>)
                else Inl CheckFailed
              else
                Inr (s\<lparr>processed_corners_kp1 := (processed_corners_kp1 s)[index it := True],
                      n_processed_corners := n_processed_corners s + 1\<rparr>))))"

text \<open>Body of the loop over the small window.\<close>

definition small_window_body ::
  "TrackerConstants \<Rightarrow> nat \<Rightarrow> nat \<Rightarrow> VisualFrame \<Rightarrow> vec2 \<Rightarrow> byte list \<Rightarrow> bool list
     \<Rightarrow> KeypointData \<Rightarrow> SearchState \<Rightarrow> error + SearchState" where
  "small_window_body K kdescriptorSizeBytes n_kp1 frame_kp1 predicted descriptor_k
     is_keypoint_kp1_matched it s =
     (let bound_left_nearest = trunc_to_int (fst predicted - kSmallSearchDistance K);
          bound_right_nearest = trunc_to_int (fst predicted + kSmallSearchDistance K)
      in if col it < real_of_int bound_left_nearest \<or> col it > real_of_int bound_right_nearest
         then Inr s
         else if \<not> index it < length is_keypoint_kp1_matched then Inl OutOfRange
         else if is_keypoint_kp1_matched ! index it then Inr s
         else score_corner kdescriptorSizeBytes n_kp1 frame_kp1 predicted descriptor_k
                (kSmallSearchDistance K) it s)"

text \<open>
  Body of the loop over the large window. The unchecked read
  \<^verbatim>\<open>processed_corners_kp1[it->index]\<close> comes first.
\<close>

definition large_window_body ::
  "TrackerConstants \<Rightarrow> nat \<Rightarrow> nat \<Rightarrow> VisualFrame \<Rightarrow> vec2 \<Rightarrow> byte list \<Rightarrow> bool list
     \<Rightarrow> KeypointData \<Rightarrow> SearchState \<Rightarrow> error + SearchState" where
  "large_window_body K kdescriptorSizeBytes n_kp1 frame_kp1 predicted descriptor_k
     is_keypoint_kp1_matched it s =
     (let bound_left_near = trunc_to_int (fst predicted - kLargeSearchDistance K);
          bound_right_near = trunc_to_int (fst predicted + kLargeSearchDistance K)
      in if \<not> index it < length (processed_corners_kp1 s) then Inl OutOfBounds
         else if processed_corners_kp1 s ! index it then Inr s
         else if \<not> index it < length is_keypoint_kp1_matched then Inl OutOfRange
         else if is_keypoint_kp1_matched ! index it then Inr s
         else if col it < real_of_int bound_left_near \<or> col it > real_of_int bound_right_near
         then Inr s
         else score_corner kdescriptorSizeBytes n_kp1 frame_kp1 predicted descriptor_k
                (kLargeSearchDistance K) it s)"

text \<open>A window loop: the body runs on each corner of the range, a failure ends the call.\<close>

fun search_window ::
  "(KeypointData \<Rightarrow> SearchState \<Rightarrow> error + SearchState) \<Rightarrow> KeypointData list \<Rightarrow> SearchState
     \<Rightarrow> error + SearchState" where
  "search_window body [] s = Inr s"
| "search_window body (it # its) s =
     (case body it s of Inl e \<Rightarrow> Inl e | Inr s' \<Rightarrow> search_window body its s')"

text \<open>
  The row indices of the two windows for a predicted row, with the source's
  \<^verbatim>\<open>CHECK\<close>s: (nearest top, nearest bottom, near top, near bottom).
\<close>

definition search_rows :: "TrackerConstants \<Rightarrow> nat \<Rightarrow> real \<Rightarrow> error + (int \<times> int \<times> int \<times> int)" where
  "search_rows K image_height py =
     (let upper = int image_height - 1;
          idxnearest0 = clamp 0 upper (trunc_to_int (py + 0.5 - kSmallSearchDistance K));
          idxnearest1 = clamp 0 upper (trunc_to_int (py + 0.5 + kSmallSearchDistance K));
          idxnear0 = clamp 0 upper (trunc_to_int (py + 0.5 - kLargeSearchDistance K));
          idxnear1 = clamp 0 upper (trunc_to_int (py + 0.5 + kLargeSearchDistance K))
      in if \<not> idxnearest0 \<le> idxnearest1 then Inl CheckFailed
         else if \<not> idxnear0 \<le> idxnear1 then Inl CheckFailed
         else if \<not> idxnearest0 \<ge> 0 then Inl CheckFailed
         else if \<not> idxnearest1 \<ge> 0 then Inl CheckFailed
         else if \<not> idxnear0 \<ge> 0 then Inl CheckFailed
         else if \<not> idxnear1 \<ge> 0 then Inl CheckFailed
         else if \<not> idxnearest0 < int image_height then Inl CheckFailed
         else if \<not> idxnearest1 < int image_height then Inl CheckFailed
         else if \<not> idxnear0 < int image_height then Inl CheckFailed
         else if \<not> idxnear1 < int image_height then Inl CheckFailed
         else Inr (min idxnearest0 upper, min (idxnearest1 + 1) upper,
                   min idxnear0 upper, min (idxnear1 + 1) upper))"

text \<open>
  The search state at the start of an iteration: nothing found, and the running best
  score set to the threshold, the floating-point product of the descriptor bit width
  and the threshold ratio converted to \<^verbatim>\<open>int\<close>.
\<close>

definition initial_search_state :: "TrackerConstants \<Rightarrow> nat \<Rightarrow> nat \<Rightarrow> SearchState" where
  "initial_search_state K kdescriptorSizeBytes n_kp1 =
     \<lparr>found = False, n_processed_corners = 0, it_best = None,
      best_score = trunc_to_int (roundThresholdProduct K
                     (real (kdescriptorSizeBytes * 8) * kMatchingThresholdBitsRatio K)),
      processed_corners_kp1 = replicate n_kp1 False\<rparr>"

text \<open>
  The two-phase search for one keypoint of frame k: the small window, then the large
  window if nothing was found. The lookup table is read at the four row indices, which
  the checks of \<open>search_rows\<close> keep inside the table.
\<close>

definition search_corners ::
  "TrackerConstants \<Rightarrow> nat \<Rightarrow> nat \<Rightarrow> GyroTrackerMatchingData \<Rightarrow> VisualFrame \<Rightarrow> nat list
     \<Rightarrow> vec2 \<Rightarrow> byte list \<Rightarrow> bool list \<Rightarrow> error + SearchState" where
  "search_corners K image_height kdescriptorSizeBytes md frame_kp1 LUT predicted descriptor_k
     is_keypoint_kp1_matched =
     (case search_rows K image_height (snd predicted) of
        Inl e \<Rightarrow> Inl e
      | Inr (nearest_top, nearest_bottom, near_top, near_bottom) \<Rightarrow>
         (let kps = keypoints_kp1_by_y md;
              nearest_corners = corners_between kps (LUT ! nat nearest_top) (LUT ! nat nearest_bottom);
              near_corners = corners_between kps (LUT ! nat near_top) (LUT ! nat near_bottom);
              s0 = initial_search_state K kdescriptorSizeBytes (num_points_kp1 md)
          in case search_window
                    (small_window_body K kdescriptorSizeBytes (num_points_kp1 md) frame_kp1 predicted
                       descriptor_k is_keypoint_kp1_matched) nearest_corners s0 of
               Inl e \<Rightarrow> Inl e
             | Inr s1 \<Rightarrow>
                 if \<not> found s1 then
                   search_window
                     (large_window_body K kdescriptorSizeBytes (num_points_kp1 md) frame_kp1 predicted
                        descriptor_k is_keypoint_kp1_matched) near_corners s1
                 else Inr s1))"

text \<open>The state carried through the loop over the keypoints of frame k.\<close>

record MatchState =
  is_keypoint_kp1_matched :: "bool list"
  matches_with_score_kp1_k :: "MatchWithScore list"
  statistics :: "StatSample list"

text \<open>
  One iteration of the loop over the keypoints of frame k. The samples handed to the
  statistics collectors are appended to \<open>statistics\<close>.
\<close>

definition match_keypoint ::
  "TrackerConstants \<Rightarrow> nat \<Rightarrow> nat \<Rightarrow> GyroTrackerMatchingData \<Rightarrow> VisualFrame \<Rightarrow> VisualFrame
     \<Rightarrow> nat list \<Rightarrow> nat \<Rightarrow> MatchState \<Rightarrow> error + MatchState" where
  "match_keypoint K image_height kdescriptorSizeBytes md frame_kp1 frame_k LUT i st =
     (let predicted_keypoint_position_kp1 = predicted_keypoint_positions_kp1 md ! i in
      case getDescriptor frame_k i of
        Inl e \<Rightarrow> Inl e
      | Inr descriptor_k \<Rightarrow>
         (case search_corners K image_height kdescriptorSizeBytes md frame_kp1 LUT
                 predicted_keypoint_position_kp1 descriptor_k (is_keypoint_kp1_matched st) of
            Inl e \<Rightarrow> Inl e
          | Inr s \<Rightarrow>
              if found s then
                (case it_best s of
                   None \<Rightarrow> Inl OutOfBounds
                 | Some best \<Rightarrow>
                     if \<not> index best < length (is_keypoint_kp1_matched st) then Inl OutOfRange
                     else Inr (st\<lparr>is_keypoint_kp1_matched :=
                                     (is_keypoint_kp1_matched st)[index best := True],
                                   matches_with_score_kp1_k := matches_with_score_kp1_k st @
                                     [\<lparr>index_kp1 = int (index best), index_k = int i, score = 0.0\<rparr>],
                                   statistics := statistics st @ [MatchBits (best_score s)]\<rparr>))
              else Inr (st\<lparr>statistics := statistics st @
                             [NoMatchNumChecked (n_processed_corners s)]\<rparr>)))"

fun match_loop ::
  "(nat \<Rightarrow> MatchState \<Rightarrow> error + MatchState) \<Rightarrow> nat list \<Rightarrow> MatchState \<Rightarrow> error + MatchState" where
  "match_loop body [] st = Inr st"
| "match_loop body (i # is) st =
     (case body i st of Inl e \<Rightarrow> Inl e | Inr st' \<Rightarrow> match_loop body is st')"

text \<open>
  \<^verbatim>\<open>matchFeatures\<close>. The matching data, which the source builds from the rotation and
  the two frames with a constructor that is not part of the sources, is passed in place
  of the rotation. \<^verbatim>\<open>kdescriptorSizeBytes\<close> is a function-local \<^verbatim>\<open>static\<close>: it is
  initialised from the matching data by the first call and keeps that value; the
  argument \<open>static_bytes\<close> is its state before the call (\<open>None\<close> before the first
  call), and the state after the call is returned with the results. The output
  container is cleared first, so its previous content does not matter.
\<close>

definition matchFeatures ::
  "TrackerConstants \<Rightarrow> Camera \<Rightarrow> nat option \<Rightarrow> GyroTrackerMatchingData \<Rightarrow> VisualFrame \<Rightarrow> VisualFrame
     \<Rightarrow> error + (MatchWithScore list \<times> StatSample list \<times> nat option)" where
  "matchFeatures K camera static_bytes md frame_kp1 frame_k =
     (let image_height = imageHeight camera;
          corner_row_LUT = corner_row_LUT (keypoints_kp1_by_y md) image_height;
          kdescriptorSizeBytes =
            (case static_bytes of None \<Rightarrow> descriptor_size_bytes md | Some b \<Rightarrow> b)
      in if int (length corner_row_LUT) \<noteq> int image_height then Inl CheckFailed
         else if \<not> kdescriptorSizeBytes * 8 \<le> 512 then Inl CheckFailed
         else case match_loop
                     (match_keypoint K image_height kdescriptorSizeBytes md frame_kp1 frame_k
                        corner_row_LUT)
                     [0..<num_points_k md]
                     \<lparr>is_keypoint_kp1_matched = replicate (num_points_kp1 md) False,
                      matches_with_score_kp1_k = [], statistics = []\<rparr> of
                Inl e \<Rightarrow> Inl e
              | Inr st \<Rightarrow> Inr (matches_with_score_kp1_k st, statistics st, Some kdescriptorSizeBytes))"

section \<open>The tracker facade\<close>

text \<open>
  \<^verbatim>\<open>track\<close>: the checks in the order of the source, then the call of
  \<^verbatim>\<open>matchFeatures\<close>. \<open>frame_kp1\<close> and the output container are pointers in the source,
  \<open>None\<close> when null.
\<close>

definition track ::
  "TrackerConstants \<Rightarrow> Camera \<Rightarrow> nat option \<Rightarrow> GyroTrackerMatchingData \<Rightarrow> VisualFrame
     \<Rightarrow> VisualFrame option \<Rightarrow> MatchWithScore list option
     \<Rightarrow> error + (MatchWithScore list \<times> StatSample list \<times> nat option)" where
  "track K camera static_bytes md frame_k frame_kp1_ptr matches_ptr =
     (if \<not> hasKeypointMeasurements frame_k then Inl CheckFailed
      else (case frame_kp1_ptr of
        None \<Rightarrow> Inl CheckFailed
      | Some frame_kp1 \<Rightarrow>
         if \<not> hasKeypointMeasurements frame_kp1 then Inl CheckFailed
         else (case getCameraGeometry frame_k of
           None \<Rightarrow> Inl CheckFailed
         | Some camera_k \<Rightarrow>
            if getId camera \<noteq> getId camera_k then Inl CheckFailed
            else (case getCameraGeometry frame_kp1 of
              None \<Rightarrow> Inl CheckFailed
            | Some camera_kp1 \<Rightarrow>
               if getId camera \<noteq> getId camera_kp1 then Inl CheckFailed
               else (case matches_ptr of
                 None \<Rightarrow> Inl CheckFailed
               | Some old_matches \<Rightarrow>
                  if \<not> hasTrackIds frame_k then Inl CheckFailed
                  else if \<not> hasTrackIds frame_kp1 then Inl CheckFailed
                  else if \<not> getTimestampNanoseconds frame_kp1 > getTimestampNanoseconds frame_k
                    then Inl CheckFailed
                  else if \<not> hasDescriptors frame_kp1 then Inl CheckFailed
                  else if getDescriptorsRows frame_kp1 \<noteq> getDescriptorSizeBytes frame_kp1
                    then Inl CheckFailed
                  else if length (getKeypointMeasurements frame_kp1) \<noteq> length (getDescriptors frame_kp1)
                    then Inl CheckFailed
                  else matchFeatures K camera static_bytes md frame_kp1 frame_k)))))"

section \<open>Auxiliary notions used in the statements\<close>

text \<open>Number of set bits of a byte, and of a natural number by halving.\<close>

definition popcount8 :: "byte \<Rightarrow> nat" where
  "popcount8 v = length (filter (bit v) [0..<8])"

fun pc :: "nat \<Rightarrow> nat" where
  "pc n = (if n = 0 then 0 else n mod 2 + pc (n div 2))"

declare pc.simps [simp del]

text \<open>Length of the longest prefix of the keypoint sequence with rows below \<open>r\<close>.\<close>

definition rows_below :: "KeypointData list \<Rightarrow> nat \<Rightarrow> nat" where
  "rows_below kps r = length (takeWhile (\<lambda>kp. row kp < real r) kps)"

text \<open>
  The keypoints of frame k+1 that a window can reach: those with a row below the last
  image row.
\<close>

definition searchable :: "KeypointData list \<Rightarrow> nat \<Rightarrow> KeypointData set" where
  "searchable kps H = {kp \<in> set kps. row kp < real H - 1}"

text \<open>
  Invariant of a window loop: an accepted corner is an unclaimed corner of the set \<open>C\<close>.
\<close>

definition best_ok :: "bool list \<Rightarrow> KeypointData set \<Rightarrow> SearchState \<Rightarrow> bool" where
  "best_ok matched C s \<longleftrightarrow>
     (found s \<longrightarrow> (\<exists>b\<in>C. it_best s = Some b \<and> index b < length matched \<and> \<not> matched ! index b))"

text \<open>
  Invariant of the loop over the keypoints of frame k: the emitted target indices are
  pairwise distinct, every emitted match has score 0 and its target is a flagged corner
  of \<open>C\<close>.
\<close>

definition match_inv :: "KeypointData set \<Rightarrow> MatchState \<Rightarrow> bool" where
  "match_inv C st \<longleftrightarrow>
     distinct (map index_kp1 (matches_with_score_kp1_k st)) \<and>
     (\<forall>m\<in>set (matches_with_score_kp1_k st). score m = 0 \<and>
        (\<exists>kp\<in>C. index_kp1 m = int (index kp) \<and> index kp < length (is_keypoint_kp1_matched st)
                 \<and> is_keypoint_kp1_matched st ! index kp))"

section \<open>The two-phase search in the words of the specification\<close>

text \<open>
  The match score of the spec (4.4): the descriptor bit width minus the Hamming distance
  between the source descriptor and the descriptor of the candidate.
\<close>

definition match_score :: "nat \<Rightarrow> VisualFrame \<Rightarrow> byte list \<Rightarrow> KeypointData \<Rightarrow> int" where
  "match_score L frame_next dk c =
     int (L * 8) - int (hamming_spec L dk (getDescriptors frame_next ! index c))"

text \<open>
  The column band of a window with search distance \<open>d\<close> around the predicted position
  \<open>p\<close>: the bounds are the predicted column minus and plus \<open>d\<close>, converted to
  \<^verbatim>\<open>int\<close>.
\<close>

definition in_columns :: "vec2 \<Rightarrow> real \<Rightarrow> KeypointData \<Rightarrow> bool" where
  "in_columns p d c \<longleftrightarrow>
     real_of_int (trunc_to_int (fst p - d)) \<le> col c \<and> col c \<le> real_of_int (trunc_to_int (fst p + d))"

text \<open>
  The running best of the spec: the candidates are visited in order, and a candidate
  replaces the running best when its score is strictly greater. The state is the best
  score so far and the candidate that holds it.
\<close>

fun running_best ::
  "(KeypointData \<Rightarrow> int) \<Rightarrow> KeypointData list \<Rightarrow> int \<times> KeypointData option
     \<Rightarrow> int \<times> KeypointData option" where
  "running_best sc [] acc = acc"
| "running_best sc (c # cs) acc =
     running_best sc cs (if sc c > fst acc then (sc c, Some c) else acc)"

text \<open>
  The candidates of the narrow phase among the corners \<open>its\<close> of the narrow rows: those
  inside the narrow column band that no earlier source keypoint has claimed.
\<close>

definition narrow_candidates ::
  "TrackerConstants \<Rightarrow> vec2 \<Rightarrow> bool list \<Rightarrow> KeypointData list \<Rightarrow> KeypointData list" where
  "narrow_candidates K p matched its =
     filter (\<lambda>c. in_columns p (kSmallSearchDistance K) c \<and> \<not> matched ! index c) its"

text \<open>
  The candidates of the wide phase among the corners \<open>its\<close> of the wide rows: those that
  the narrow phase has not examined, that are not claimed, and that lie inside the wide
  column band. \<open>examined\<close> is the list of candidates of the narrow phase.
  \<open>unprocessed_candidates\<close> is the same selection read off the processed flags.
\<close>

definition wide_candidates ::
  "TrackerConstants \<Rightarrow> vec2 \<Rightarrow> bool list \<Rightarrow> KeypointData list \<Rightarrow> KeypointData list
     \<Rightarrow> KeypointData list" where
  "wide_candidates K p matched examined its =
     filter (\<lambda>c. index c \<notin> index ` set examined \<and> \<not> matched ! index c
                 \<and> in_columns p (kLargeSearchDistance K) c) its"

definition unprocessed_candidates ::
  "TrackerConstants \<Rightarrow> vec2 \<Rightarrow> bool list \<Rightarrow> bool list \<Rightarrow> KeypointData list \<Rightarrow> KeypointData list" where
  "unprocessed_candidates K p matched processed its =
     filter (\<lambda>c. \<not> processed ! index c \<and> \<not> matched ! index c
                 \<and> in_columns p (kLargeSearchDistance K) c) its"

text \<open>The processed flags after the flag of each corner of a list has been set.\<close>

definition mark :: "KeypointData list \<Rightarrow> bool list \<Rightarrow> bool list" where
  "mark cs flags = fold (\<lambda>c fl. fl[index c := True]) cs flags"

text \<open>
  The threshold: the floating-point product of the descriptor bit width and the
  threshold ratio, converted to \<^verbatim>\<open>int\<close>.
\<close>

definition threshold :: "TrackerConstants \<Rightarrow> nat \<Rightarrow> int" where
  "threshold K L =
     trunc_to_int (roundThresholdProduct K (real (L * 8) * kMatchingThresholdBitsRatio K))"

text \<open>
  The reads of a search stay inside their containers: every corner carries an index
  below the number \<open>n\<close> of keypoints of frame k+1, with a claim flag and a descriptor
  of at least \<open>L\<close> bytes.
\<close>

definition corners_ok :: "nat \<Rightarrow> nat \<Rightarrow> VisualFrame \<Rightarrow> bool list \<Rightarrow> KeypointData list \<Rightarrow> bool" where
  "corners_ok n L frame_next matched its \<longleftrightarrow>
     (\<forall>c\<in>set its. index c < n \<and> index c < length matched
        \<and> index c < length (getDescriptors frame_next)
        \<and> L \<le> length (getDescriptors frame_next ! index c))"

section \<open>A worked example\<close>

text \<open>
  A small frame pair in the shape of the concrete scenario of the spec (8): image height
  12, descriptors of 2 bytes, search distances 2 and 4, threshold ratio 0.8. Frame k has
  keypoints in rows 1, 5 and 9, predicted where they are. Frame k+1 has a keypoint in
  row 1 at Hamming distance 2 from the first source descriptor, one in row 6 equal to
  the second source descriptor, and one in row 20, outside the image.
\<close>

definition example_constants :: TrackerConstants where
  "example_constants =
     \<lparr>kSmallSearchDistance = 2, kLargeSearchDistance = 4, kMatchingThresholdBitsRatio = 0.8,
      roundThresholdProduct = (\<lambda>x. x)\<rparr>"

definition example_camera :: Camera where
  "example_camera = \<lparr>getId = 7, imageHeight = 12\<rparr>"

definition example_matching_data :: GyroTrackerMatchingData where
  "example_matching_data =
     \<lparr>keypoints_kp1_by_y =
        [\<lparr>measurement = (6, 1), index = 1\<rparr>, \<lparr>measurement = (5, 6), index = 0\<rparr>,
         \<lparr>measurement = (5, 20), index = 2\<rparr>],
      predicted_keypoint_positions_kp1 = [(5, 1), (5, 5), (5, 9)],
      descriptor_size_bytes = 2\<rparr>"

definition example_frame_k :: VisualFrame where
  "example_frame_k =
     \<lparr>hasKeypointMeasurements = True, hasTrackIds = True, hasDescriptors = True,
      getCameraGeometry = Some example_camera, getTimestampNanoseconds = 1000,
      getKeypointMeasurements = [(5, 1), (5, 5), (5, 9)],
      getDescriptors = [[0x0F, 0xFF], [0xAA, 0x55], [0x33, 0xCC]],
      getDescriptorsRows = 2, getDescriptorSizeBytes = 2\<rparr>"

definition example_frame_kp1 :: VisualFrame where
  "example_frame_kp1 =
     \<lparr>hasKeypointMeasurements = True, hasTrackIds = True, hasDescriptors = True,
      getCameraGeometry = Some example_camera, getTimestampNanoseconds = 2000,
      getKeypointMeasurements = [(5, 6), (6, 1), (5, 20)],
      getDescriptors = [[0xAA, 0x55], [0x0E, 0x7F], [0x33, 0xCC]],
      getDescriptorsRows = 2, getDescriptorSizeBytes = 2\<rparr>"

text \<open>The same constants with threshold ratio 0.75, so that the threshold is 12 of 16 bits.\<close>

definition example_constants_34 :: TrackerConstants where
  "example_constants_34 =
     \<lparr>kSmallSearchDistance = 2, kLargeSearchDistance = 4, kMatchingThresholdBitsRatio = 0.75,
      roundThresholdProduct = (\<lambda>x. x)\<rparr>"

text \<open>
  A frame k with empty keypoint and track-id channels and no descriptor channel, and the
  matching data of this frame and the example frame k+1.
\<close>

definition example_frame_k_no_descriptors :: VisualFrame where
  "example_frame_k_no_descriptors =
     \<lparr>hasKeypointMeasurements = True, hasTrackIds = True, hasDescriptors = False,
      getCameraGeometry = Some example_camera, getTimestampNanoseconds = 1000,
      getKeypointMeasurements = [], getDescriptors = [],
      getDescriptorsRows = 0, getDescriptorSizeBytes = 0\<rparr>"

definition example_matching_data_no_descriptors :: GyroTrackerMatchingData where
  "example_matching_data_no_descriptors =
     \<lparr>keypoints_kp1_by_y =
        [\<lparr>measurement = (6, 1), index = 1\<rparr>, \<lparr>measurement = (5, 6), index = 0\<rparr>,
         \<lparr>measurement = (5, 20), index = 2\<rparr>],
      predicted_keypoint_positions_kp1 = [],
      descriptor_size_bytes = 2\<rparr>"

text \<open>
  The state of the loop over the keypoints of frame k after \<open>m\<close> iterations when every
  keypoint so far was matched to itself: targets \<open>0..m-1\<close> are claimed, and the matches
  are \<open>(0, 0), ..., (m-1, m-1)\<close>, each with full score.
\<close>

definition identity_state :: "nat \<Rightarrow> nat \<Rightarrow> nat \<Rightarrow> MatchState" where
  "identity_state n L m =
     \<lparr>is_keypoint_kp1_matched = map (\<lambda>j. j < m) [0..<n],
      matches_with_score_kp1_k = map (\<lambda>j. \<lparr>index_kp1 = int j, index_k = int j, score = 0\<rparr>) [0..<m],
      statistics = replicate m (MatchBits (int (L * 8)))\<rparr>"

text \<open>
  Identity cases: one frame used as frame k and as frame k+1, every position predicted
  where it is. The first frame has a single keypoint in the last image row 11; the
  second has two keypoints with different descriptors in rows 6 and 2; the third has two
  keypoints in rows 5 and 4 with the same descriptor.
\<close>

definition identity_constants :: TrackerConstants where
  "identity_constants =
     \<lparr>kSmallSearchDistance = 4, kLargeSearchDistance = 8, kMatchingThresholdBitsRatio = 0.8,
      roundThresholdProduct = (\<lambda>x. x)\<rparr>"

definition last_row_frame :: VisualFrame where
  "last_row_frame =
     \<lparr>hasKeypointMeasurements = True, hasTrackIds = True, hasDescriptors = True,
      getCameraGeometry = Some example_camera, getTimestampNanoseconds = 1000,
      getKeypointMeasurements = [(5, 11)], getDescriptors = [[0x0F, 0xFF]],
      getDescriptorsRows = 2, getDescriptorSizeBytes = 2\<rparr>"

definition last_row_matching_data :: GyroTrackerMatchingData where
  "last_row_matching_data =
     \<lparr>keypoints_kp1_by_y = [\<lparr>measurement = (5, 11), index = 0\<rparr>],
      predicted_keypoint_positions_kp1 = [(5, 11)],
      descriptor_size_bytes = 2\<rparr>"

definition identity_frame :: VisualFrame where
  "identity_frame =
     \<lparr>hasKeypointMeasurements = True, hasTrackIds = True, hasDescriptors = True,
      getCameraGeometry = Some example_camera, getTimestampNanoseconds = 1000,
      getKeypointMeasurements = [(5, 6), (3, 2)], getDescriptors = [[0x0F, 0xFF], [0xAA, 0x55]],
      getDescriptorsRows = 2, getDescriptorSizeBytes = 2\<rparr>"

definition identity_matching_data :: GyroTrackerMatchingData where
  "identity_matching_data =
     \<lparr>keypoints_kp1_by_y = [\<lparr>measurement = (3, 2), index = 1\<rparr>, \<lparr>measurement = (5, 6), index = 0\<rparr>],
      predicted_keypoint_positions_kp1 = [(5, 6), (3, 2)],
      descriptor_size_bytes = 2\<rparr>"

definition duplicate_frame :: VisualFrame where
  "duplicate_frame =
     \<lparr>hasKeypointMeasurements = True, hasTrackIds = True, hasDescriptors = True,
      getCameraGeometry = Some example_camera, getTimestampNanoseconds = 1000,
      getKeypointMeasurements = [(5, 5), (5, 4)], getDescriptors = [[0x0F, 0xFF], [0x0F, 0xFF]],
      getDescriptorsRows = 2, getDescriptorSizeBytes = 2\<rparr>"

definition duplicate_matching_data :: GyroTrackerMatchingData where
  "duplicate_matching_data =
     \<lparr>keypoints_kp1_by_y = [\<lparr>measurement = (5, 4), index = 1\<rparr>, \<lparr>measurement = (5, 5), index = 0\<rparr>],
      predicted_keypoint_positions_kp1 = [(5, 5), (5, 4)],
      descriptor_size_bytes = 2\<rparr>"

text \<open>
  A frame k+1 for the two phases, with threshold 12 of 16 bits and the source
  descriptor \<open>[0x0F, 0xFF]\<close>: keypoint 0 in row 4 scores 4, keypoint 1 in row 5 is
  claimed in the runs below, keypoint 3 in row 6 scores exactly 12, and keypoint 2 in
  row 7 and column 8 scores 13. For the prediction (5, 5) keypoint 2 lies outside the
  narrow column band \<open>[3, 7]\<close> and inside the wide one \<open>[1, 9]\<close>; for the prediction
  (7, 7) it lies inside the narrow band \<open>[5, 9]\<close>.
\<close>

definition gating_matching_data :: GyroTrackerMatchingData where
  "gating_matching_data =
     \<lparr>keypoints_kp1_by_y =
        [\<lparr>measurement = (5, 4), index = 0\<rparr>, \<lparr>measurement = (5, 5), index = 1\<rparr>,
         \<lparr>measurement = (5, 6), index = 3\<rparr>, \<lparr>measurement = (8, 7), index = 2\<rparr>],
      predicted_keypoint_positions_kp1 = [(5, 5)],
      descriptor_size_bytes = 2\<rparr>"

definition gating_frame :: VisualFrame where
  "gating_frame =
     \<lparr>hasKeypointMeasurements = True, hasTrackIds = True, hasDescriptors = True,
      getCameraGeometry = Some example_camera, getTimestampNanoseconds = 2000,
      getKeypointMeasurements = [(5, 4), (5, 5), (8, 7), (5, 6)],
      getDescriptors = [[0xF0, 0x0F], [0x0F, 0xFF], [0x08, 0xFF], [0x00, 0xFF]],
      getDescriptorsRows = 2, getDescriptorSizeBytes = 2\<rparr>"





section \<open>Correctness of the descriptor comparator\<close>

lemma pc_0 [simp]: "pc 0 = 0" by (simp add: pc.simps)
lemma pc_double [simp]: "pc (2 * m) = pc m" by (subst pc.simps) simp
lemma pc_double1 [simp]: "pc (Suc (2 * m)) = Suc (pc m)" by (subst pc.simps) simp

lemma pc_clear_lowest: "0 < n \<Longrightarrow> pc (n AND (n - 1)) + 1 = pc n"
proof (induction n rule: less_induct)
  case (less n)
  show ?case
  proof (cases "even n")
    case True
    then obtain m where m: "n = 2 * m" by (auto elim: evenE)
    with less.prems have mpos: "0 < m" by simp
    have "n - 1 = Suc (2 * (m - 1))" using m mpos by simp
    then have "n AND (n - 1) = 2 * (m AND (m - 1))"
      using m mpos by (subst and_nat_unfold) simp
    moreover have "pc (m AND (m - 1)) + 1 = pc m"
      using less.IH[of m] m mpos by simp
    ultimately show ?thesis using m by simp
  next
    case False
    then obtain m where m: "n = Suc (2 * m)" by (auto elim: oddE)
    have "n AND (n - 1) = 2 * m"
      using m by (subst and_nat_unfold) simp
    then show ?thesis using m by simp
  qed
qed

lemma pc_filter: "n < 2 ^ k \<Longrightarrow> pc n = length (filter (bit n) [0..<k])"
proof (induction k arbitrary: n)
  case 0
  then show ?case by simp
next
  case (Suc k)
  have half: "n div 2 < 2 ^ k" using Suc.prems by simp
  have "[0..<Suc k] = 0 # map Suc [0..<k]"
    by (simp add: upt_conv_Cons map_Suc_upt del: upt_Suc)
  then have "length (filter (bit n) [0..<Suc k])
      = (if odd n then 1 else 0) + length (filter (bit (n div 2)) [0..<k])"
    by (simp add: filter_map comp_def bit_Suc bit_0 del: upt_Suc)
  also have "\<dots> = (if odd n then 1 else 0) + pc (n div 2)"
    using Suc.IH[OF half] by simp
  also have "\<dots> = pc n"
    by (subst (2) pc.simps) (auto simp: odd_iff_mod_2_eq_one)
  finally show ?case by simp
qed

lemma popcount8_pc: "popcount8 v = pc (unat v)"
proof -
  have "unat v < 2 ^ 8" using unsigned_less[of v] by simp
  then have "pc (unat v) = length (filter (bit (unat v)) [0..<8])" by (rule pc_filter)
  also have "filter (bit (unat v)) [0..<8] = filter (bit v) [0..<8]"
    by (rule filter_cong) (auto simp: bit_unsigned_iff)
  finally show ?thesis by (simp add: popcount8_def)
qed

lemma clear_lowest: assumes "v \<noteq> 0" shows "popcount8 (v AND (v - 1)) + 1 = popcount8 v"
proof -
  have "unat (v AND (v - 1)) = unat v AND (unat v - 1)"
    using assms by (simp add: unsigned_and_eq unat_minus_one)
  moreover have "0 < unat v" using assms by (simp add: unat_gt_0)
  ultimately show ?thesis using pc_clear_lowest[of "unat v"] by (simp add: popcount8_pc)
qed

lemma count_bits_eq: "count_bits v d = d + popcount8 v"
proof (induction v d rule: count_bits.induct)
  case (1 val distance)
  show ?case
  proof (cases "val = 0")
    case True
    then show ?thesis by (simp add: count_bits.simps popcount8_def)
  next
    case False
    then show ?thesis using 1 clear_lowest[OF False] by (subst count_bits.simps) simp
  qed
qed

lemma differing_bits_popcount: "differing_bits a b = popcount8 (a XOR b)"
proof -
  have "bit (a XOR b) = (\<lambda>n. bit a n \<noteq> bit b n)"
    by (rule ext) (simp add: bit_xor_iff)
  then show ?thesis by (simp add: differing_bits_def popcount8_def)
qed

lemma popcount8_le: "popcount8 v \<le> 8"
  unfolding popcount8_def using length_filter_le[of "bit v" "[0..<8]"] by simp

lemma fold_hamming_byte:
  "fold (hamming_byte x y) [0..<n] d = d + hamming_spec n x y"
proof (induction n)
  case 0
  then show ?case by (simp add: hamming_spec_def)
next
  case (Suc n)
  then show ?case
    by (simp add: hamming_spec_def hamming_byte_def count_bits_eq differing_bits_popcount)
qed

lemma hamming_spec_le: "hamming_spec n x y \<le> n * 8"
proof (induction n)
  case 0
  then show ?case by (simp add: hamming_spec_def)
next
  case (Suc n)
  have "differing_bits (x ! n) (y ! n) \<le> 8"
    by (simp add: differing_bits_popcount popcount8_le)
  with Suc show ?case by (simp add: hamming_spec_def)
qed

lemma hammingDistance512_eq:
  "length x = L \<Longrightarrow> length y = L \<Longrightarrow> hammingDistance512 L x y = Inr (hamming_spec L x y)"
  using hamming_spec_le[of L x y]
  by (simp add: hammingDistance512_def fold_hamming_byte)

text \<open>
  C6. For two descriptors of the agreed byte length \<open>L\<close>, the comparator returns the
  Hamming distance, that is the number of differing bits; this number is the sum over
  the \<open>L\<close> bytes of the population count of the byte-wise XOR, and it is at most
  \<open>8 * L\<close>.
\<close>

theorem hammingDistance512_hamming:
  "length x = L \<Longrightarrow> length y = L \<Longrightarrow>
     hammingDistance512 L x y = Inr (hamming_spec L x y)
     \<and> hamming_spec L x y = (\<Sum>i\<leftarrow>[0..<L]. popcount8 ((x ! i) XOR (y ! i)))
     \<and> hamming_spec L x y \<le> 8 * L"
proof -
  assume len: "length x = L" "length y = L"
  have "hamming_spec L x y = (\<Sum>i\<leftarrow>[0..<L]. popcount8 ((x ! i) XOR (y ! i)))"
    by (simp add: hamming_spec_def differing_bits_popcount)
  moreover have "hamming_spec L x y \<le> 8 * L"
    using hamming_spec_le[of L x y] by (simp add: mult.commute)
  ultimately show ?thesis using hammingDistance512_eq[OF len] by simp
qed

theorem hammingDistance512_hamming_witness:
  "length [0x0F, 0xFF :: byte] = 2 \<and> length [0x0E, 0x7F :: byte] = 2
   \<and> hammingDistance512 2 [0x0F, 0xFF] [0x0E, 0x7F] = Inr 2
   \<and> hamming_spec 2 [0x0F, 0xFF] [0x0E, 0x7F] = 2
   \<and> hamming_spec 2 [0x0F, 0xFF] [0x0E, 0x7F] \<le> 8 * 2"
proof -
  have v: "hamming_spec 2 [0x0F, 0xFF] [0x0E, 0x7F] = 2"
    by (simp add: hamming_spec_def differing_bits_def eval_nat_numeral bit_numeral_rec bit_Suc bit_0)
  show ?thesis
    using hammingDistance512_hamming[of "[0x0F, 0xFF]" 2 "[0x0E, 0x7F]"] v by simp
qed

section \<open>Correctness of the row lookup table\<close>

lemma rows_below_le: "rows_below kps r \<le> length kps"
  by (simp add: rows_below_def length_takeWhile_le)

lemma rows_below_nth: "i < rows_below kps r \<Longrightarrow> row (kps ! i) < real r"
proof -
  let ?P = "\<lambda>kp. row kp < real r"
  assume "i < rows_below kps r"
  then have i: "i < length (takeWhile ?P kps)" by (simp add: rows_below_def)
  then have "takeWhile ?P kps ! i = kps ! i" by (rule takeWhile_nth)
  moreover have "takeWhile ?P kps ! i \<in> set (takeWhile ?P kps)" using i by simp
  ultimately show ?thesis by (auto dest: set_takeWhileD)
qed

lemma rows_below_geI:
  "j \<le> length kps \<Longrightarrow> (\<And>i. i < j \<Longrightarrow> row (kps ! i) < real r) \<Longrightarrow> j \<le> rows_below kps r"
  unfolding rows_below_def by (rule length_takeWhile_less_P_nth)

lemma rows_below_mono: "r \<le> r' \<Longrightarrow> rows_below kps r \<le> rows_below kps r'"
proof (rule rows_below_geI)
  show "rows_below kps r \<le> length kps" by (rule rows_below_le)
next
  fix i assume "r \<le> r'" "i < rows_below kps r"
  then show "row (kps ! i) < real r'" using rows_below_nth[of i kps r] by simp
qed

lemma advance_v_rows_below:
  "v \<le> rows_below kps y \<Longrightarrow> advance_v kps y v = rows_below kps y"
proof (induction kps y v rule: advance_v.induct)
  case (1 kps y v)
  show ?case
  proof (cases "v < length kps \<and> real y > row (kps ! v)")
    case True
    have "v + 1 \<le> rows_below kps y"
    proof (rule rows_below_geI)
      show "v + 1 \<le> length kps" using True by simp
    next
      fix i assume "i < v + 1"
      then consider "i < v" | "i = v" by linarith
      then show "row (kps ! i) < real y"
      proof cases
        case 1
        with "1.prems" show ?thesis by (intro rows_below_nth) simp
      next
        case 2
        with True show ?thesis by simp
      qed
    qed
    with "1.IH" True show ?thesis by (subst advance_v.simps) simp
  next
    case False
    have "rows_below kps y \<le> v"
    proof (rule ccontr)
      assume "\<not> rows_below kps y \<le> v"
      then have v: "v < rows_below kps y" by simp
      then have "row (kps ! v) < real y" by (rule rows_below_nth)
      moreover have "v < length kps" using v rows_below_le[of kps y] by simp
      ultimately show False using False by simp
    qed
    with "1.prems" False show ?thesis by (subst advance_v.simps) auto
  qed
qed

lemma lut_fold:
  "fold (lut_step kps) [0..<n] (0, []) =
     ((if n = 0 then 0 else rows_below kps (n - 1)), map (rows_below kps) [0..<n])"
proof (induction n)
  case 0
  then show ?case by simp
next
  case (Suc n)
  have "(if n = 0 then 0 else rows_below kps (n - 1)) \<le> rows_below kps n"
    by (simp add: rows_below_mono)
  then show ?case using Suc
    by (simp add: lut_step_def advance_v_rows_below Let_def)
qed

lemma corner_row_LUT_eq: "corner_row_LUT kps H = map (rows_below kps) [0..<H]"
  by (simp add: corner_row_LUT_def lut_fold)

lemma filter_takeWhile_sorted:
  "sorted (map f xs) \<Longrightarrow> filter (\<lambda>x. f x < (t::real)) xs = takeWhile (\<lambda>x. f x < t) xs"
proof (induction xs)
  case Nil
  then show ?case by simp
next
  case (Cons a xs)
  show ?case
  proof (cases "f a < t")
    case True
    with Cons show ?thesis by simp
  next
    case False
    with Cons.prems have "\<forall>x\<in>set xs. \<not> f x < t" by fastforce
    then have "filter (\<lambda>x. f x < t) xs = []" by (simp add: filter_empty_conv)
    with False show ?thesis by simp
  qed
qed

lemma rows_below_sorted:
  "sorted (map row kps) \<Longrightarrow> rows_below kps r = length (filter (\<lambda>kp. row kp < real r) kps)"
  by (simp add: rows_below_def filter_takeWhile_sorted)

lemma length_filter_full: "length (filter P xs) = length xs \<longleftrightarrow> (\<forall>x\<in>set xs. P x)"
proof (induction xs)
  case Nil
  then show ?case by simp
next
  case (Cons a xs)
  show ?case
  proof (cases "P a")
    case True
    with Cons show ?thesis by simp
  next
    case False
    then have "length (filter P (a # xs)) < length (a # xs)" by (simp add: less_Suc_eq_le)
    with False show ?thesis by auto
  qed
qed

lemma take_corner_row_LUT:
  "r < H \<Longrightarrow> take (corner_row_LUT kps H ! r) kps = takeWhile (\<lambda>kp. row kp < real r) kps"
  by (simp add: corner_row_LUT_eq rows_below_def takeWhile_eq_take[symmetric])

text \<open>
  C2. The lookup table built for sorted keypoints and image height \<open>H\<close> has length
  \<open>H\<close>, its entry at \<open>r\<close> is the number of keypoints whose row is strictly less than
  \<open>r\<close>, and its entries are non-decreasing.
\<close>

theorem corner_row_LUT_counts:
  "sorted (map row kps) \<Longrightarrow>
     length (corner_row_LUT kps H) = H
     \<and> (\<forall>r<H. corner_row_LUT kps H ! r = length (filter (\<lambda>kp. row kp < real r) kps))
     \<and> (\<forall>r. r + 1 < H \<longrightarrow> corner_row_LUT kps H ! r \<le> corner_row_LUT kps H ! (r + 1))"
  by (simp add: corner_row_LUT_eq rows_below_sorted[symmetric] rows_below_mono)

theorem corner_row_LUT_counts_witness:
  "sorted (map row [\<lparr>measurement = (3, 0.5), index = 1\<rparr>, \<lparr>measurement = (5, 2), index = 0\<rparr>,
                     \<lparr>measurement = (4, 2.5), index = 2\<rparr>])
   \<and> corner_row_LUT [\<lparr>measurement = (3, 0.5), index = 1\<rparr>, \<lparr>measurement = (5, 2), index = 0\<rparr>,
                      \<lparr>measurement = (4, 2.5), index = 2\<rparr>] 4 = [0, 1, 1, 3]
   \<and> length (corner_row_LUT [\<lparr>measurement = (3, 0.5), index = 1\<rparr>, \<lparr>measurement = (5, 2), index = 0\<rparr>,
                      \<lparr>measurement = (4, 2.5), index = 2\<rparr>] 4) = 4
   \<and> corner_row_LUT [\<lparr>measurement = (3, 0.5), index = 1\<rparr>, \<lparr>measurement = (5, 2), index = 0\<rparr>,
                      \<lparr>measurement = (4, 2.5), index = 2\<rparr>] 4 ! 3
       = length (filter (\<lambda>kp. row kp < real 3)
                   [\<lparr>measurement = (3, 0.5), index = 1\<rparr>, \<lparr>measurement = (5, 2), index = 0\<rparr>,
                    \<lparr>measurement = (4, 2.5), index = 2\<rparr>])
   \<and> corner_row_LUT [\<lparr>measurement = (3, 0.5), index = 1\<rparr>, \<lparr>measurement = (5, 2), index = 0\<rparr>,
                      \<lparr>measurement = (4, 2.5), index = 2\<rparr>] 4 ! 2
       \<le> corner_row_LUT [\<lparr>measurement = (3, 0.5), index = 1\<rparr>, \<lparr>measurement = (5, 2), index = 0\<rparr>,
                      \<lparr>measurement = (4, 2.5), index = 2\<rparr>] 4 ! (2 + 1)"
proof -
  let ?kps = "[\<lparr>measurement = (3, 0.5), index = 1\<rparr>, \<lparr>measurement = (5, 2), index = 0\<rparr>,
               \<lparr>measurement = (4, 2.5), index = 2\<rparr>]"
  have srt: "sorted (map row ?kps)" by (simp add: row_def)
  have val: "corner_row_LUT ?kps 4 = [0, 1, 1, 3]"
    by (simp add: corner_row_LUT_def lut_step_def advance_v.simps row_def eval_nat_numeral)
  show ?thesis
    using corner_row_LUT_counts[OF srt, of 4] srt val by (simp add: row_def)
qed

text \<open>
  C8 as stated fails: with image height 2 and a single keypoint in row 1, the last entry
  of the table is 0, not the keypoint count 1.
\<close>

theorem corner_row_LUT_last_counterexample:
  "corner_row_LUT [\<lparr>measurement = (0, 1), index = 0\<rparr>] 2 ! (2 - 1)
     \<noteq> length [\<lparr>measurement = (0, 1), index = 0\<rparr>]"
  by (simp add: corner_row_LUT_def lut_step_def advance_v.simps row_def eval_nat_numeral)

text \<open>
  C8, amended. For sorted keypoints and an image height \<open>H > 0\<close>, the last entry of the
  table is the number of keypoints whose row is strictly less than \<open>H - 1\<close>; it is the
  total keypoint count exactly when every keypoint has its row below \<open>H - 1\<close>.
\<close>

theorem corner_row_LUT_last:
  "sorted (map row kps) \<Longrightarrow> 0 < H \<Longrightarrow>
     corner_row_LUT kps H ! (H - 1) = length (filter (\<lambda>kp. row kp < real (H - 1)) kps)
     \<and> (corner_row_LUT kps H ! (H - 1) = length kps \<longleftrightarrow> (\<forall>kp\<in>set kps. row kp < real (H - 1)))"
proof -
  assume srt: "sorted (map row kps)" and H: "0 < H"
  have eq: "corner_row_LUT kps H ! (H - 1) = length (filter (\<lambda>kp. row kp < real (H - 1)) kps)"
    using H by (simp add: corner_row_LUT_eq rows_below_sorted[OF srt])
  have "length (filter (\<lambda>kp. row kp < real (H - 1)) kps) = length kps
          \<longleftrightarrow> (\<forall>kp\<in>set kps. row kp < real (H - 1))"
    by (rule length_filter_full)
  with eq show ?thesis by simp
qed

theorem corner_row_LUT_last_witness:
  "sorted (map row [\<lparr>measurement = (3, 0.5), index = 1\<rparr>, \<lparr>measurement = (5, 2), index = 0\<rparr>,
                     \<lparr>measurement = (4, 2.5), index = 2\<rparr>])
   \<and> (0::nat) < 4
   \<and> corner_row_LUT [\<lparr>measurement = (3, 0.5), index = 1\<rparr>, \<lparr>measurement = (5, 2), index = 0\<rparr>,
                      \<lparr>measurement = (4, 2.5), index = 2\<rparr>] 4 ! (4 - 1) = 3
   \<and> corner_row_LUT [\<lparr>measurement = (3, 0.5), index = 1\<rparr>, \<lparr>measurement = (5, 2), index = 0\<rparr>,
                      \<lparr>measurement = (4, 2.5), index = 2\<rparr>] 4 ! (4 - 1)
       = length [\<lparr>measurement = (3, 0.5), index = 1\<rparr>, \<lparr>measurement = (5, 2), index = 0\<rparr>,
                 \<lparr>measurement = (4, 2.5), index = 2\<rparr>]"
proof -
  let ?kps = "[\<lparr>measurement = (3, 0.5), index = 1\<rparr>, \<lparr>measurement = (5, 2), index = 0\<rparr>,
               \<lparr>measurement = (4, 2.5), index = 2\<rparr>]"
  have srt: "sorted (map row ?kps)" by (simp add: row_def)
  have H: "(0::nat) < 4" by simp
  show ?thesis
    using corner_row_LUT_last[OF srt H] srt by (simp add: row_def)
qed


section \<open>Invariants of a window loop\<close>

lemma score_corner_Inr:
  assumes "score_corner L n frame_kp1 p dk sd it s = Inr s'"
  obtains d distance where
    "index it < n" "getDescriptor frame_kp1 (index it) = Inr d"
    "hammingDistance512 L dk d = Inr distance"
    "int (L * 8) - int distance > best_score s \<Longrightarrow>
       vec_diff_norm p (measurement it) < sd * 2 \<and>
       s' = s\<lparr>best_score := int (L * 8) - int distance, it_best := Some it, found := True,
              processed_corners_kp1 := (processed_corners_kp1 s)[index it := True],
              n_processed_corners := n_processed_corners s + 1\<rparr>"
    "\<not> int (L * 8) - int distance > best_score s \<Longrightarrow>
       s' = s\<lparr>processed_corners_kp1 := (processed_corners_kp1 s)[index it := True],
              n_processed_corners := n_processed_corners s + 1\<rparr>"
  using assms unfolding score_corner_def Let_def
  by (auto split: sum.splits if_splits)

lemma score_corner_best:
  assumes "score_corner L n frame_kp1 p dk sd it s = Inr s'"
  shows "(found s' \<and> it_best s' = Some it \<and> best_score s' > best_score s)
         \<or> (found s' = found s \<and> it_best s' = it_best s \<and> best_score s' = best_score s)"
proof -
  from assms obtain d distance where
    a: "int (L * 8) - int distance > best_score s \<Longrightarrow>
       s' = s\<lparr>best_score := int (L * 8) - int distance, it_best := Some it, found := True,
              processed_corners_kp1 := (processed_corners_kp1 s)[index it := True],
              n_processed_corners := n_processed_corners s + 1\<rparr>"
    and b: "\<not> int (L * 8) - int distance > best_score s \<Longrightarrow>
       s' = s\<lparr>processed_corners_kp1 := (processed_corners_kp1 s)[index it := True],
              n_processed_corners := n_processed_corners s + 1\<rparr>"
    by (rule score_corner_Inr) blast
  show ?thesis
  proof (cases "int (L * 8) - int distance > best_score s")
    case True
    from a[OF True] True show ?thesis by simp
  next
    case False
    from b[OF False] show ?thesis by simp
  qed
qed

lemma small_window_body_best:
  assumes "small_window_body K L n frame_kp1 p dk matched it s = Inr s'"
  shows "(found s' \<and> it_best s' = Some it \<and> index it < length matched \<and> \<not> matched ! index it)
         \<or> (found s' = found s \<and> it_best s' = it_best s)"
  using assms unfolding small_window_body_def Let_def
  by (auto split: if_splits dest: score_corner_best)

lemma large_window_body_best:
  assumes "large_window_body K L n frame_kp1 p dk matched it s = Inr s'"
  shows "(found s' \<and> it_best s' = Some it \<and> index it < length matched \<and> \<not> matched ! index it)
         \<or> (found s' = found s \<and> it_best s' = it_best s)"
  using assms unfolding large_window_body_def Let_def
  by (auto split: if_splits dest: score_corner_best)

lemma search_window_invariant:
  assumes "search_window body its s = Inr s'"
    and "J s"
    and "\<And>it t t'. it \<in> set its \<Longrightarrow> J t \<Longrightarrow> body it t = Inr t' \<Longrightarrow> J t'"
  shows "J s'"
  using assms
proof (induction its arbitrary: s)
  case Nil
  then show ?case by simp
next
  case (Cons it its)
  from Cons.prems(1) obtain t where t: "body it s = Inr t" and rest: "search_window body its t = Inr s'"
    by (auto split: sum.splits)
  have "J t" using Cons.prems(3)[of it s t] Cons.prems(2) t by simp
  show ?case
  proof (rule Cons.IH[OF rest \<open>J t\<close>])
    fix it' u u'
    assume "it' \<in> set its" "J u" "body it' u = Inr u'"
    then show "J u'" using Cons.prems(3)[of it' u u'] by simp
  qed
qed

lemma search_small_best_ok:
  assumes "search_window (small_window_body K L n frame_kp1 p dk matched) its s = Inr s'"
    and "best_ok matched C s" and "set its \<subseteq> C"
  shows "best_ok matched C s'"
  using assms(1,2)
proof (rule search_window_invariant)
  fix it t t'
  assume "it \<in> set its" "best_ok matched C t"
    "small_window_body K L n frame_kp1 p dk matched it t = Inr t'"
  then show "best_ok matched C t'"
    using assms(3) small_window_body_best[of K L n frame_kp1 p dk matched it t t']
    unfolding best_ok_def by auto
qed

lemma search_large_best_ok:
  assumes "search_window (large_window_body K L n frame_kp1 p dk matched) its s = Inr s'"
    and "best_ok matched C s" and "set its \<subseteq> C"
  shows "best_ok matched C s'"
  using assms(1,2)
proof (rule search_window_invariant)
  fix it t t'
  assume "it \<in> set its" "best_ok matched C t"
    "large_window_body K L n frame_kp1 p dk matched it t = Inr t'"
  then show "best_ok matched C t'"
    using assms(3) large_window_body_best[of K L n frame_kp1 p dk matched it t t']
    unfolding best_ok_def by auto
qed

lemma search_rows_Inr:
  assumes "search_rows K H py = Inr (a, b, c, d)"
  shows "0 \<le> a \<and> a \<le> b \<and> b < int H \<and> 0 \<le> c \<and> c \<le> d \<and> d < int H"
  using assms unfolding search_rows_def Let_def
  by (auto split: if_splits)

lemma corners_between_rows:
  assumes "r < H" and "kp \<in> set (corners_between kps b (corner_row_LUT kps H ! r))"
  shows "kp \<in> set kps \<and> row kp < real r"
proof -
  from assms(2) have "kp \<in> set (take (corner_row_LUT kps H ! r) kps)"
    unfolding corners_between_def by (auto dest: in_set_dropD)
  then have "kp \<in> set (takeWhile (\<lambda>kp. row kp < real r) kps)"
    using assms(1) by (simp add: take_corner_row_LUT)
  then show ?thesis by (auto dest: set_takeWhileD)
qed

lemma corners_between_searchable:
  assumes "0 \<le> r" "r < int H"
  shows "set (corners_between kps b (corner_row_LUT kps H ! nat r)) \<subseteq> searchable kps H"
proof
  fix kp assume "kp \<in> set (corners_between kps b (corner_row_LUT kps H ! nat r))"
  moreover have "nat r < H" using assms by simp
  ultimately have "kp \<in> set kps \<and> row kp < real (nat r)" by (intro corners_between_rows)
  moreover have "real (nat r) \<le> real H - 1" using assms by simp
  ultimately show "kp \<in> searchable kps H" by (simp add: searchable_def)
qed

lemma search_corners_best_ok:
  assumes "search_corners K H L md frame_kp1 (corner_row_LUT (keypoints_kp1_by_y md) H) p dk matched = Inr s"
  shows "best_ok matched (searchable (keypoints_kp1_by_y md) H) s"
proof -
  let ?kps = "keypoints_kp1_by_y md"
  let ?LUT = "corner_row_LUT ?kps H"
  let ?C = "searchable ?kps H"
  from assms obtain a b c d where rows: "search_rows K H (snd p) = Inr (a, b, c, d)"
    unfolding search_corners_def by (auto split: sum.splits)
  note bounds = search_rows_Inr[OF rows]
  define s0 where "s0 = initial_search_state K L (num_points_kp1 md)"
  from assms rows obtain s1 where
    s1: "search_window (small_window_body K L (num_points_kp1 md) frame_kp1 p dk matched)
           (corners_between ?kps (?LUT ! nat a) (?LUT ! nat b)) s0 = Inr s1"
    and s: "(if \<not> found s1 then
              search_window (large_window_body K L (num_points_kp1 md) frame_kp1 p dk matched)
                (corners_between ?kps (?LUT ! nat c) (?LUT ! nat d)) s1
            else Inr s1) = Inr s"
    unfolding search_corners_def s0_def Let_def by (auto split: sum.splits)
  have "best_ok matched ?C s0" by (simp add: best_ok_def s0_def initial_search_state_def)
  moreover have "set (corners_between ?kps (?LUT ! nat a) (?LUT ! nat b)) \<subseteq> ?C"
    using bounds by (intro corners_between_searchable) auto
  ultimately have ok1: "best_ok matched ?C s1"
    by (rule search_small_best_ok[OF s1])
  show ?thesis
  proof (cases "found s1")
    case True
    with s ok1 show ?thesis by simp
  next
    case False
    with s have s2: "search_window (large_window_body K L (num_points_kp1 md) frame_kp1 p dk matched)
                (corners_between ?kps (?LUT ! nat c) (?LUT ! nat d)) s1 = Inr s" by simp
    have "set (corners_between ?kps (?LUT ! nat c) (?LUT ! nat d)) \<subseteq> ?C"
      using bounds by (intro corners_between_searchable) auto
    with ok1 show ?thesis by (rule search_large_best_ok[OF s2])
  qed
qed

lemma match_keypoint_defined:
  assumes "match_keypoint K H L md frame_kp1 frame_k LUT i st = Inr st'"
  shows "\<exists>dk s. getDescriptor frame_k i = Inr dk \<and>
    search_corners K H L md frame_kp1 LUT (predicted_keypoint_positions_kp1 md ! i) dk
       (is_keypoint_kp1_matched st) = Inr s"
  using assms unfolding match_keypoint_def Let_def
  by (auto split: sum.splits)

lemma match_keypoint_found:
  assumes "match_keypoint K H L md frame_kp1 frame_k LUT i st = Inr st'"
    and "getDescriptor frame_k i = Inr dk"
    and "search_corners K H L md frame_kp1 LUT (predicted_keypoint_positions_kp1 md ! i) dk
       (is_keypoint_kp1_matched st) = Inr s"
    and "found s"
  shows "\<exists>best. it_best s = Some best \<and> index best < length (is_keypoint_kp1_matched st) \<and>
       st' = st\<lparr>is_keypoint_kp1_matched := (is_keypoint_kp1_matched st)[index best := True],
                matches_with_score_kp1_k := matches_with_score_kp1_k st @
                   [\<lparr>index_kp1 = int (index best), index_k = int i, score = 0\<rparr>],
                statistics := statistics st @ [MatchBits (best_score s)]\<rparr>"
  using assms unfolding match_keypoint_def Let_def
  by (auto split: if_splits option.splits)

lemma match_keypoint_not_found:
  assumes "match_keypoint K H L md frame_kp1 frame_k LUT i st = Inr st'"
    and "getDescriptor frame_k i = Inr dk"
    and "search_corners K H L md frame_kp1 LUT (predicted_keypoint_positions_kp1 md ! i) dk
       (is_keypoint_kp1_matched st) = Inr s"
    and "\<not> found s"
  shows "st' = st\<lparr>statistics := statistics st @ [NoMatchNumChecked (n_processed_corners s)]\<rparr>"
  using assms unfolding match_keypoint_def Let_def
  by auto

section \<open>The loop over the keypoints of frame k\<close>

lemma match_invD:
  "match_inv C st \<Longrightarrow> m \<in> set (matches_with_score_kp1_k st) \<Longrightarrow>
     score m = 0 \<and> (\<exists>kp\<in>C. index_kp1 m = int (index kp)
        \<and> index kp < length (is_keypoint_kp1_matched st) \<and> is_keypoint_kp1_matched st ! index kp)"
  by (simp add: match_inv_def)

lemma subseq_distinct: "subseq xs ys \<Longrightarrow> distinct ys \<Longrightarrow> distinct xs"
  by (auto simp: subseq_conv_nths)

lemma match_keypoint_inv:
  assumes step: "match_keypoint K H L md frame_kp1 frame_k (corner_row_LUT (keypoints_kp1_by_y md) H) i st = Inr st'"
    and inv: "match_inv (searchable (keypoints_kp1_by_y md) H) st"
  shows "match_inv (searchable (keypoints_kp1_by_y md) H) st'"
proof -
  let ?C = "searchable (keypoints_kp1_by_y md) H"
  let ?matched = "is_keypoint_kp1_matched st"
  from match_keypoint_defined[OF step] obtain dk s where
    dk: "getDescriptor frame_k i = Inr dk" and
    sc: "search_corners K H L md frame_kp1 (corner_row_LUT (keypoints_kp1_by_y md) H)
           (predicted_keypoint_positions_kp1 md ! i) dk ?matched = Inr s"
    by blast
  note f = match_keypoint_found[OF step dk sc]
  note nf = match_keypoint_not_found[OF step dk sc]
  show ?thesis
  proof (cases "found s")
    case False
    from nf[OF False] inv show ?thesis by (simp add: match_inv_def)
  next
    case True
    from f[OF True] obtain best where b: "it_best s = Some best" "index best < length ?matched"
      and st': "st' = st\<lparr>is_keypoint_kp1_matched := ?matched[index best := True],
                matches_with_score_kp1_k := matches_with_score_kp1_k st @
                   [\<lparr>index_kp1 = int (index best), index_k = int i, score = 0\<rparr>],
                statistics := statistics st @ [MatchBits (best_score s)]\<rparr>" by blast
    from search_corners_best_ok[OF sc] True b
    have bC: "best \<in> ?C" and free: "\<not> ?matched ! index best"
      by (auto simp: best_ok_def)
    have fresh: "int (index best) \<notin> set (map index_kp1 (matches_with_score_kp1_k st))"
    proof
      assume "int (index best) \<in> set (map index_kp1 (matches_with_score_kp1_k st))"
      then obtain m where "m \<in> set (matches_with_score_kp1_k st)" "index_kp1 m = int (index best)"
        by auto
      with match_invD[OF inv, of m]
      obtain kp :: KeypointData where "index_kp1 m = int (index kp)" "?matched ! index kp" by blast
      with \<open>index_kp1 m = int (index best)\<close> free show False by simp
    qed
    have old: "\<And>m. m \<in> set (matches_with_score_kp1_k st) \<Longrightarrow> score m = 0 \<and>
        (\<exists>kp\<in>?C. index_kp1 m = int (index kp) \<and> index kp < length (?matched[index best := True])
                 \<and> ?matched[index best := True] ! index kp)"
    proof -
      fix m assume "m \<in> set (matches_with_score_kp1_k st)"
      with match_invD[OF inv, of m] have "score m = 0 \<and> (\<exists>kp\<in>?C. index_kp1 m = int (index kp) \<and>
        index kp < length ?matched \<and> ?matched ! index kp)"
        by simp
      then obtain kp where "score m = 0" "kp \<in> ?C" "index_kp1 m = int (index kp)"
        "index kp < length ?matched" "?matched ! index kp"
        by blast
      then show "score m = 0 \<and>
        (\<exists>kp\<in>?C. index_kp1 m = int (index kp) \<and> index kp < length (?matched[index best := True])
                 \<and> ?matched[index best := True] ! index kp)"
        using b(2) by (intro conjI bexI[of _ kp]) (simp_all add: nth_list_update)
    qed
    have new: "\<exists>kp\<in>?C. int (index best) = int (index kp) \<and> index kp < length (?matched[index best := True])
                 \<and> ?matched[index best := True] ! index kp"
      using bC b(2) by (intro bexI[of _ best]) simp_all
    show ?thesis
      unfolding match_inv_def st' using inv fresh old new
      by (simp add: match_inv_def)
  qed
qed

lemma match_loop_invariant:
  assumes "match_loop body is st = Inr st'"
    and "J st"
    and "\<And>i t t'. i \<in> set is \<Longrightarrow> J t \<Longrightarrow> body i t = Inr t' \<Longrightarrow> J t'"
  shows "J st'"
  using assms
proof (induction "is" arbitrary: st)
  case Nil
  then show ?case by simp
next
  case (Cons i "is")
  from Cons.prems(1) obtain t where t: "body i st = Inr t" and rest: "match_loop body is t = Inr st'"
    by (auto split: sum.splits)
  have "J t" using Cons.prems(3)[of i st t] Cons.prems(2) t by simp
  show ?case
  proof (rule Cons.IH[OF rest \<open>J t\<close>])
    fix i' u u'
    assume "i' \<in> set is" "J u" "body i' u = Inr u'"
    then show "J u'" using Cons.prems(3)[of i' u u'] by simp
  qed
qed

lemma match_keypoint_index_k:
  assumes "match_keypoint K H L md frame_kp1 frame_k LUT i st = Inr st'"
  shows "\<exists>ms. matches_with_score_kp1_k st' = matches_with_score_kp1_k st @ ms
              \<and> subseq (map index_k ms) [int i]"
proof -
  from match_keypoint_defined[OF assms] obtain dk s where
    dk: "getDescriptor frame_k i = Inr dk" and
    sc: "search_corners K H L md frame_kp1 LUT
           (predicted_keypoint_positions_kp1 md ! i) dk (is_keypoint_kp1_matched st) = Inr s"
    by blast
  note f = match_keypoint_found[OF assms dk sc]
  note nf = match_keypoint_not_found[OF assms dk sc]
  show ?thesis
  proof (cases "found s")
    case True
    from f[OF True] show ?thesis by auto
  next
    case False
    from nf[OF False] show ?thesis by auto
  qed
qed

lemma match_loop_index_k:
  assumes "match_loop (match_keypoint K H L md frame_kp1 frame_k LUT) is st = Inr st'"
  shows "\<exists>ms. matches_with_score_kp1_k st' = matches_with_score_kp1_k st @ ms
              \<and> subseq (map index_k ms) (map int is)"
  using assms
proof (induction "is" arbitrary: st)
  case Nil
  then show ?case by simp
next
  case (Cons i "is")
  from Cons.prems obtain t where t: "match_keypoint K H L md frame_kp1 frame_k LUT i st = Inr t"
    and rest: "match_loop (match_keypoint K H L md frame_kp1 frame_k LUT) is t = Inr st'"
    by (auto split: sum.splits)
  from match_keypoint_index_k[OF t] obtain ms1 where
    ms1: "matches_with_score_kp1_k t = matches_with_score_kp1_k st @ ms1" "subseq (map index_k ms1) [int i]"
    by auto
  from Cons.IH[OF rest] obtain ms2 where
    ms2: "matches_with_score_kp1_k st' = matches_with_score_kp1_k t @ ms2" "subseq (map index_k ms2) (map int is)"
    by auto
  have "subseq (map index_k ms1 @ map index_k ms2) ([int i] @ map int is)"
    using ms1(2) ms2(2) by (rule list_emb_append_mono)
  then show ?case using ms1(1) ms2(1) by (intro exI[of _ "ms1 @ ms2"]) simp
qed

lemma matchFeatures_Inr:
  assumes "matchFeatures K camera sb md frame_kp1 frame_k = Inr (ms, stats, sb')"
  obtains L st where
    "L = (case sb of None \<Rightarrow> descriptor_size_bytes md | Some b \<Rightarrow> b)" "L * 8 \<le> 512" "sb' = Some L"
    "match_loop (match_keypoint K (imageHeight camera) L md frame_kp1 frame_k
        (corner_row_LUT (keypoints_kp1_by_y md) (imageHeight camera))) [0..<num_points_k md]
        \<lparr>is_keypoint_kp1_matched = replicate (num_points_kp1 md) False,
          matches_with_score_kp1_k = [], statistics = []\<rparr> = Inr st"
    "ms = matches_with_score_kp1_k st" "stats = statistics st"
  using assms unfolding matchFeatures_def Let_def
  by (auto split: sum.splits if_splits)


section \<open>Evaluation of the worked example\<close>

lemma vec_diff_norm_less_iff:
  "vec_diff_norm a b < c \<longleftrightarrow> 0 < c \<and> (fst a - fst b)\<^sup>2 + (snd a - snd b)\<^sup>2 < c\<^sup>2"
proof (cases "0 < c")
  case True
  then have "sqrt ((fst a - fst b)\<^sup>2 + (snd a - snd b)\<^sup>2) < c
      \<longleftrightarrow> (fst a - fst b)\<^sup>2 + (snd a - snd b)\<^sup>2 < c\<^sup>2"
    by (metis real_sqrt_less_iff real_sqrt_abs abs_of_pos)
  with True show ?thesis by (simp add: vec_diff_norm_def)
next
  case False
  have "0 \<le> sqrt ((fst a - fst b)\<^sup>2 + (snd a - snd b)\<^sup>2)" by simp
  with False show ?thesis unfolding vec_diff_norm_def by linarith
qed

lemma example_LUT:
  "corner_row_LUT (keypoints_kp1_by_y example_matching_data) 12
     = [0, 0, 1, 1, 1, 1, 1, 2, 2, 2, 2, 2]"
  by code_simp

lemma example_distance_2: "hammingDistance512 2 [0x0F, 0xFF] [0x0E, 0x7F] = Inr 2"
  by code_simp

lemma example_distance_0: "hammingDistance512 2 [0xAA, 0x55] [0xAA, 0x55] = Inr 0"
  by code_simp

lemmas example_defs =
  example_matching_data_def example_constants_def example_frame_k_def example_frame_kp1_def
  num_points_k_def num_points_kp1_def match_keypoint_def getDescriptor_def search_corners_def
  initial_search_state_def
  search_rows_def clamp_def trunc_to_int_def corners_between_def small_window_body_def
  large_window_body_def score_corner_def example_distance_2 example_distance_0
  vec_diff_norm_less_iff col_def row_def Let_def

lemma example_matchFeatures:
  "matchFeatures example_constants example_camera None example_matching_data
     example_frame_kp1 example_frame_k =
   Inr ([\<lparr>index_kp1 = 1, index_k = 0, score = 0\<rparr>, \<lparr>index_kp1 = 0, index_k = 1, score = 0\<rparr>],
        [MatchBits 14, MatchBits 16, NoMatchNumChecked 0], Some 2)"
  unfolding matchFeatures_def example_camera_def Camera.simps Let_def example_LUT
  by (simp add: example_defs)

section \<open>Properties of the output of \<^verbatim>\<open>matchFeatures\<close>\<close>

lemma subseq_set: "subseq xs ys \<Longrightarrow> set xs \<subseteq> set ys"
  by (auto simp: subseq_conv_nths dest: in_set_nthsD)

lemma matchFeatures_match_inv:
  assumes "matchFeatures K camera sb md frame_kp1 frame_k = Inr (ms, stats, sb')"
  shows "\<exists>st. ms = matches_with_score_kp1_k st
           \<and> match_inv (searchable (keypoints_kp1_by_y md) (imageHeight camera)) st"
proof -
  let ?H = "imageHeight camera"
  let ?C = "searchable (keypoints_kp1_by_y md) ?H"
  from assms obtain L st where
    loop: "match_loop (match_keypoint K ?H L md frame_kp1 frame_k
        (corner_row_LUT (keypoints_kp1_by_y md) ?H)) [0..<num_points_k md]
        \<lparr>is_keypoint_kp1_matched = replicate (num_points_kp1 md) False,
          matches_with_score_kp1_k = [], statistics = []\<rparr> = Inr st"
    and ms: "ms = matches_with_score_kp1_k st"
    by (rule matchFeatures_Inr) blast
  have "match_inv ?C \<lparr>is_keypoint_kp1_matched = replicate (num_points_kp1 md) False,
          matches_with_score_kp1_k = [], statistics = []\<rparr>"
    by (simp add: match_inv_def)
  with loop have "match_inv ?C st"
    by (rule match_loop_invariant) (rule match_keypoint_inv)
  with ms show ?thesis by blast
qed

lemma matchFeatures_index_k:
  assumes "matchFeatures K camera sb md frame_kp1 frame_k = Inr (ms, stats, sb')"
  shows "subseq (map index_k ms) (map int [0..<num_points_k md])"
proof -
  from assms obtain L st where
    loop: "match_loop (match_keypoint K (imageHeight camera) L md frame_kp1 frame_k
        (corner_row_LUT (keypoints_kp1_by_y md) (imageHeight camera))) [0..<num_points_k md]
        \<lparr>is_keypoint_kp1_matched = replicate (num_points_kp1 md) False,
          matches_with_score_kp1_k = [], statistics = []\<rparr> = Inr st"
    and ms: "ms = matches_with_score_kp1_k st"
    by (rule matchFeatures_Inr) blast
  from match_loop_index_k[OF loop] show ?thesis by (simp add: ms)
qed

lemma track_Inr:
  "track K camera sb md frame_k frame_ptr matches_ptr = Inr r \<Longrightarrow>
     \<exists>frame_next. frame_ptr = Some frame_next
        \<and> matchFeatures K camera sb md frame_next frame_k = Inr r"
  by (auto simp: track_def split: if_splits option.splits)

text \<open>
  C1. The output of a call of \<^verbatim>\<open>matchFeatures\<close> or of \<^verbatim>\<open>track\<close> is injective on
  both sides: the indices into frame k+1 of the emitted matches are pairwise distinct,
  and so are the indices into frame k.
\<close>

theorem matchFeatures_injective:
  assumes "matchFeatures K camera sb md frame_next frame_k = Inr (ms, stats, sb')
           \<or> track K camera sb md frame_k frame_ptr matches_ptr = Inr (ms, stats, sb')"
  shows "distinct (map index_kp1 ms) \<and> distinct (map index_k ms)"
proof -
  from assms track_Inr[of K camera sb md frame_k frame_ptr matches_ptr "(ms, stats, sb')"]
  obtain frame_b where run: "matchFeatures K camera sb md frame_b frame_k = Inr (ms, stats, sb')"
    by blast
  from matchFeatures_match_inv[OF run] have d1: "distinct (map index_kp1 ms)"
    by (auto simp: match_inv_def)
  have "distinct (map int [0..<num_points_k md])" by (simp add: distinct_map)
  with matchFeatures_index_k[OF run] have "distinct (map index_k ms)" by (rule subseq_distinct)
  with d1 show ?thesis by simp
qed

theorem matchFeatures_injective_witness:
  "matchFeatures example_constants example_camera None example_matching_data
     example_frame_kp1 example_frame_k =
   Inr ([\<lparr>index_kp1 = 1, index_k = 0, score = 0\<rparr>, \<lparr>index_kp1 = 0, index_k = 1, score = 0\<rparr>],
        [MatchBits 14, MatchBits 16, NoMatchNumChecked 0], Some 2)
   \<and> distinct (map index_kp1 [\<lparr>index_kp1 = 1, index_k = 0, score = 0\<rparr>,
                               \<lparr>index_kp1 = 0, index_k = 1, score = 0\<rparr>])
   \<and> distinct (map index_k [\<lparr>index_kp1 = 1, index_k = 0, score = 0\<rparr>,
                             \<lparr>index_kp1 = 0, index_k = 1, score = 0\<rparr>])"
  using matchFeatures_injective[OF disjI1, OF example_matchFeatures] example_matchFeatures by simp

lemma example_search_0:
  "search_corners example_constants 12 2 example_matching_data example_frame_kp1
     [0, 0, 1, 1, 1, 1, 1, 2, 2, 2, 2, 2] (5, 1) [0x0F, 0xFF] [False, False, False]
   = Inr \<lparr>found = True, n_processed_corners = 1,
          it_best = Some \<lparr>measurement = (6, 1), index = 1\<rparr>, best_score = 14,
          processed_corners_kp1 = [False, True, False]\<rparr>"
  by (simp add: example_defs)

lemma example_match_keypoint_0:
  "match_keypoint example_constants 12 2 example_matching_data example_frame_kp1 example_frame_k
     [0, 0, 1, 1, 1, 1, 1, 2, 2, 2, 2, 2] 0
     \<lparr>is_keypoint_kp1_matched = [False, False, False], matches_with_score_kp1_k = [],
      statistics = []\<rparr>
   = Inr \<lparr>is_keypoint_kp1_matched = [False, True, False],
          matches_with_score_kp1_k = [\<lparr>index_kp1 = 1, index_k = 0, score = 0\<rparr>],
          statistics = [MatchBits 14]\<rparr>"
  by (simp add: example_defs)

text \<open>
  C5. Every emitted match record has the placeholder score 0 and pairs an index of
  frame k+1 with an index of frame k; the record emitted in iteration \<open>i\<close> pairs the
  index of the accepted corner with \<open>i\<close>, while the computed score only goes to the
  statistics.
\<close>

theorem emitted_match_placeholder_score:
  "(matchFeatures K camera sb md frame_next frame_k = Inr (ms, stats, sb') \<longrightarrow>
      (\<forall>m\<in>set ms. score m = 0
          \<and> (\<exists>kp\<in>set (keypoints_kp1_by_y md). index_kp1 m = int (index kp))
          \<and> (\<exists>i<num_points_k md. index_k m = int i)))
   \<and> (match_keypoint K H L md frame_next frame_k LUT i st = Inr st'
        \<and> getDescriptor frame_k i = Inr dk
        \<and> search_corners K H L md frame_next LUT (predicted_keypoint_positions_kp1 md ! i) dk
             (is_keypoint_kp1_matched st) = Inr s
        \<and> found s \<longrightarrow>
      (\<exists>best. it_best s = Some best
         \<and> matches_with_score_kp1_k st' = matches_with_score_kp1_k st @
               [\<lparr>index_kp1 = int (index best), index_k = int i, score = 0\<rparr>]
         \<and> statistics st' = statistics st @ [MatchBits (best_score s)]))"
proof (intro conjI impI ballI)
  fix m
  assume run: "matchFeatures K camera sb md frame_next frame_k = Inr (ms, stats, sb')"
    and m: "m \<in> set ms"
  from matchFeatures_match_inv[OF run] obtain st0 where
    "ms = matches_with_score_kp1_k st0"
    "match_inv (searchable (keypoints_kp1_by_y md) (imageHeight camera)) st0" by blast
  with m match_invD[of _ st0 m] show "score m = 0" by simp
  from \<open>ms = _\<close> \<open>match_inv _ st0\<close> m match_invD[of _ st0 m]
  show "\<exists>kp\<in>set (keypoints_kp1_by_y md). index_kp1 m = int (index kp)"
    by (auto simp: searchable_def)
  from matchFeatures_index_k[OF run] have "set (map index_k ms) \<subseteq> set (map int [0..<num_points_k md])"
    by (rule subseq_set)
  with m show "\<exists>i<num_points_k md. index_k m = int i" by auto
next
  assume a: "match_keypoint K H L md frame_next frame_k LUT i st = Inr st'
        \<and> getDescriptor frame_k i = Inr dk
        \<and> search_corners K H L md frame_next LUT (predicted_keypoint_positions_kp1 md ! i) dk
             (is_keypoint_kp1_matched st) = Inr s
        \<and> found s"
  then have "\<exists>best. it_best s = Some best \<and> index best < length (is_keypoint_kp1_matched st) \<and>
       st' = st\<lparr>is_keypoint_kp1_matched := (is_keypoint_kp1_matched st)[index best := True],
                matches_with_score_kp1_k := matches_with_score_kp1_k st @
                   [\<lparr>index_kp1 = int (index best), index_k = int i, score = 0\<rparr>],
                statistics := statistics st @ [MatchBits (best_score s)]\<rparr>"
    by (intro match_keypoint_found[of K H L md frame_next frame_k LUT i st st' dk s]) simp_all
  then show "\<exists>best. it_best s = Some best
         \<and> matches_with_score_kp1_k st' = matches_with_score_kp1_k st @
               [\<lparr>index_kp1 = int (index best), index_k = int i, score = 0\<rparr>]
         \<and> statistics st' = statistics st @ [MatchBits (best_score s)]"
    by auto
qed

theorem emitted_match_placeholder_score_witness:
  "matchFeatures example_constants example_camera None example_matching_data
     example_frame_kp1 example_frame_k =
   Inr ([\<lparr>index_kp1 = 1, index_k = 0, score = 0\<rparr>, \<lparr>index_kp1 = 0, index_k = 1, score = 0\<rparr>],
        [MatchBits 14, MatchBits 16, NoMatchNumChecked 0], Some 2)
   \<and> score \<lparr>index_kp1 = 1, index_k = 0, score = 0\<rparr> = 0
   \<and> match_keypoint example_constants 12 2 example_matching_data example_frame_kp1 example_frame_k
       [0, 0, 1, 1, 1, 1, 1, 2, 2, 2, 2, 2] 0
       \<lparr>is_keypoint_kp1_matched = [False, False, False], matches_with_score_kp1_k = [],
        statistics = []\<rparr>
     = Inr \<lparr>is_keypoint_kp1_matched = [False, True, False],
            matches_with_score_kp1_k = [\<lparr>index_kp1 = 1, index_k = 0, score = 0\<rparr>],
            statistics = [MatchBits 14]\<rparr>
   \<and> getDescriptor example_frame_k 0 = Inr [0x0F, 0xFF]
   \<and> found \<lparr>found = True, n_processed_corners = 1,
          it_best = Some \<lparr>measurement = (6, 1), index = 1\<rparr>, best_score = 14,
          processed_corners_kp1 = [False, True, False]\<rparr>
   \<and> matches_with_score_kp1_k \<lparr>is_keypoint_kp1_matched = [False, True, False],
            matches_with_score_kp1_k = [\<lparr>index_kp1 = 1, index_k = 0, score = 0\<rparr>],
            statistics = [MatchBits 14]\<rparr>
       = [] @ [\<lparr>index_kp1 = int (index \<lparr>measurement = (6, 1), index = 1\<rparr>), index_k = int 0,
                score = 0\<rparr>]"
proof -
  have dk: "getDescriptor example_frame_k 0 = Inr [0x0F, 0xFF]"
    by (simp add: getDescriptor_def example_frame_k_def)
  have prd: "predicted_keypoint_positions_kp1 example_matching_data ! 0 = (5, 1)"
    by (simp add: example_matching_data_def)
  show ?thesis
    using emitted_match_placeholder_score[where K = example_constants and camera = example_camera
        and sb = None and md = example_matching_data and frame_next = example_frame_kp1
        and frame_k = example_frame_k and H = 12 and L = 2
        and LUT = "[0, 0, 1, 1, 1, 1, 1, 2, 2, 2, 2, 2]" and i = 0
        and st = "\<lparr>is_keypoint_kp1_matched = [False, False, False], matches_with_score_kp1_k = [],
                    statistics = []\<rparr>"
        and dk = "[0x0F, 0xFF]"]
      example_matchFeatures example_match_keypoint_0 example_search_0 dk prd
    by simp
qed

text \<open>
  C10. A keypoint of frame k+1 whose row is greater than or equal to the image height
  minus 1 lies in neither window of any search, and its index is not the target of any
  emitted match.
\<close>

theorem last_row_keypoints_never_matched:
  "(search_rows K H py = Inr (nearest_top, nearest_bottom, near_top, near_bottom) \<longrightarrow>
      (\<forall>kp \<in> set (corners_between kps (corner_row_LUT kps H ! nat nearest_top)
                      (corner_row_LUT kps H ! nat nearest_bottom))
             \<union> set (corners_between kps (corner_row_LUT kps H ! nat near_top)
                      (corner_row_LUT kps H ! nat near_bottom)).
          row kp < real H - 1))
   \<and> (matchFeatures K camera sb md frame_next frame_k = Inr (ms, stats, sb')
        \<and> distinct (map index (keypoints_kp1_by_y md)) \<longrightarrow>
      (\<forall>kp\<in>set (keypoints_kp1_by_y md).
          row kp \<ge> real (imageHeight camera) - 1 \<longrightarrow> int (index kp) \<notin> index_kp1 ` set ms))"
proof (intro conjI impI ballI)
  fix kp
  assume rows: "search_rows K H py = Inr (nearest_top, nearest_bottom, near_top, near_bottom)"
    and kp: "kp \<in> set (corners_between kps (corner_row_LUT kps H ! nat nearest_top)
                      (corner_row_LUT kps H ! nat nearest_bottom))
             \<union> set (corners_between kps (corner_row_LUT kps H ! nat near_top)
                      (corner_row_LUT kps H ! nat near_bottom))"
  note b = search_rows_Inr[OF rows]
  have "set (corners_between kps (corner_row_LUT kps H ! nat nearest_top)
                      (corner_row_LUT kps H ! nat nearest_bottom)) \<subseteq> searchable kps H"
    using b by (intro corners_between_searchable) auto
  moreover have "set (corners_between kps (corner_row_LUT kps H ! nat near_top)
                      (corner_row_LUT kps H ! nat near_bottom)) \<subseteq> searchable kps H"
    using b by (intro corners_between_searchable) auto
  ultimately have "kp \<in> searchable kps H" using kp by blast
  then show "row kp < real H - 1" by (simp add: searchable_def)
next
  fix kp
  assume a: "matchFeatures K camera sb md frame_next frame_k = Inr (ms, stats, sb')
        \<and> distinct (map index (keypoints_kp1_by_y md))"
    and kp: "kp \<in> set (keypoints_kp1_by_y md)"
    and last: "row kp \<ge> real (imageHeight camera) - 1"
  from a have run: "matchFeatures K camera sb md frame_next frame_k = Inr (ms, stats, sb')"
    and inj: "inj_on index (set (keypoints_kp1_by_y md))" by (simp_all add: distinct_map)
  from matchFeatures_match_inv[OF run] obtain st0 where
    ms: "ms = matches_with_score_kp1_k st0" and
    inv: "match_inv (searchable (keypoints_kp1_by_y md) (imageHeight camera)) st0" by blast
  show "int (index kp) \<notin> index_kp1 ` set ms"
  proof
    assume "int (index kp) \<in> index_kp1 ` set ms"
    then obtain m where m: "m \<in> set ms" "index_kp1 m = int (index kp)" by auto
    with match_invD[OF inv, of m] ms obtain kp' where
      kp': "kp' \<in> searchable (keypoints_kp1_by_y md) (imageHeight camera)"
        "index_kp1 m = int (index kp')" by auto
    with m have "index kp' = index kp" by simp
    moreover from kp' have "kp' \<in> set (keypoints_kp1_by_y md)" by (simp add: searchable_def)
    ultimately have "kp' = kp" using inj kp by (auto dest: inj_onD)
    with kp' last show False by (simp add: searchable_def)
  qed
qed

theorem last_row_keypoints_never_matched_witness:
  "search_rows example_constants 12 9 = Inr (7, 11, 5, 11)
   \<and> row \<lparr>measurement = (5, 6), index = 0\<rparr> < real 12 - 1
   \<and> matchFeatures example_constants example_camera None example_matching_data
        example_frame_kp1 example_frame_k =
      Inr ([\<lparr>index_kp1 = 1, index_k = 0, score = 0\<rparr>, \<lparr>index_kp1 = 0, index_k = 1, score = 0\<rparr>],
           [MatchBits 14, MatchBits 16, NoMatchNumChecked 0], Some 2)
   \<and> distinct (map index (keypoints_kp1_by_y example_matching_data))
   \<and> row \<lparr>measurement = (5, 20), index = 2\<rparr> \<ge> real (imageHeight example_camera) - 1
   \<and> int (index \<lparr>measurement = (5, 20), index = 2\<rparr>)
        \<notin> index_kp1 ` set [\<lparr>index_kp1 = 1, index_k = 0, score = 0\<rparr>,
                             \<lparr>index_kp1 = 0, index_k = 1, score = 0\<rparr>]"
proof -
  have rows: "search_rows example_constants 12 9 = Inr (7, 11, 5, 11)"
    by (simp add: example_defs)
  have dst: "distinct (map index (keypoints_kp1_by_y example_matching_data))"
    by (simp add: example_matching_data_def)
  show ?thesis
    using last_row_keypoints_never_matched[where K = example_constants and H = 12 and py = 9
        and kps = "keypoints_kp1_by_y example_matching_data"
        and camera = example_camera and sb = None and md = example_matching_data
        and frame_next = example_frame_kp1 and frame_k = example_frame_k]
      rows dst example_matchFeatures
    by (simp add: example_LUT corners_between_def row_def example_matching_data_def example_camera_def)
qed


section \<open>The window searches and the running best\<close>

lemma hammingDistance512_Inr:
  "hammingDistance512 L x y = Inr d \<Longrightarrow> d = hamming_spec L x y"
  by (auto simp: hammingDistance512_def fold_hamming_byte Let_def split: if_splits)

lemma hammingDistance512_ge:
  "L \<le> length x \<Longrightarrow> L \<le> length y \<Longrightarrow> hammingDistance512 L x y = Inr (hamming_spec L x y)"
  using hamming_spec_le[of L x y]
  by (simp add: hammingDistance512_def fold_hamming_byte)

lemma getDescriptor_Inr: "getDescriptor fr i = Inr d \<Longrightarrow> d = getDescriptors fr ! i"
  by (auto simp: getDescriptor_def split: if_splits)

text \<open>What \<open>score_corner\<close> does when it returns.\<close>
lemma score_corner_step:
  assumes "score_corner L n fr p dk sd c s = Inr t"
  shows "best_score t = max (best_score s) (match_score L fr dk c)
       \<and> it_best t = (if best_score s < match_score L fr dk c then Some c else it_best s)
       \<and> found t = (found s \<or> best_score s < match_score L fr dk c)
       \<and> processed_corners_kp1 t = (processed_corners_kp1 s)[index c := True]
       \<and> n_processed_corners t = n_processed_corners s + 1"
proof -
  from assms obtain d dist where
    d: "getDescriptor fr (index c) = Inr d" and h: "hammingDistance512 L dk d = Inr dist"
    by (auto simp: score_corner_def split: if_splits sum.splits)
  have sc: "match_score L fr dk c = int (L * 8) - int dist"
    using getDescriptor_Inr[OF d] hammingDistance512_Inr[OF h] by (simp add: match_score_def)
  show ?thesis using assms d h
    by (auto simp: score_corner_def sc Let_def split: if_splits)
qed

lemma score_corner_total:
  assumes "index c < n" "index c < length (getDescriptors fr)"
    "L \<le> length (getDescriptors fr ! index c)" "L \<le> length dk"
    "best_score s < match_score L fr dk c \<longrightarrow> vec_diff_norm p (measurement c) < sd * 2"
  shows "\<exists>t. score_corner L n fr p dk sd c s = Inr t"
proof -
  have d: "getDescriptor fr (index c) = Inr (getDescriptors fr ! index c)"
    using assms(2) by (simp add: getDescriptor_def)
  have h: "hammingDistance512 L dk (getDescriptors fr ! index c)
             = Inr (hamming_spec L dk (getDescriptors fr ! index c))"
    using assms(3,4) by (intro hammingDistance512_ge)
  show ?thesis using assms(1,5) d h
    by (auto simp: score_corner_def match_score_def Let_def)
qed


lemma running_best_ge: "fst acc \<le> fst (running_best sc cs acc)"
proof (induction cs arbitrary: acc)
  case Nil
  then show ?case by simp
next
  case (Cons c cs)
  have "fst acc \<le> fst (if sc c > fst acc then (sc c, Some c) else acc)" by simp
  also have "\<dots> \<le> fst (running_best sc cs (if sc c > fst acc then (sc c, Some c) else acc))"
    by (rule Cons.IH)
  finally show ?case by simp
qed

lemma running_best_le_unchanged:
  "fst (running_best sc cs acc) \<le> fst acc \<Longrightarrow> running_best sc cs acc = acc"
proof (induction cs arbitrary: acc)
  case Nil
  then show ?case by simp
next
  case (Cons c cs)
  let ?a = "if sc c > fst acc then (sc c, Some c) else acc"
  have ge: "fst ?a \<le> fst (running_best sc cs ?a)" by (rule running_best_ge)
  from Cons.prems have le: "fst (running_best sc cs ?a) \<le> fst acc" by simp
  have "\<not> sc c > fst acc"
  proof
    assume "sc c > fst acc"
    then have "fst ?a = sc c" by simp
    with ge le \<open>sc c > fst acc\<close> show False by linarith
  qed
  then have a: "?a = acc" by simp
  with le have "running_best sc cs acc = acc" by (intro Cons.IH) simp
  with a show ?case by simp
qed

lemma running_best_unchanged:
  "\<forall>c\<in>set cs. sc c \<le> fst acc \<Longrightarrow> running_best sc cs acc = acc"
  by (induction cs arbitrary: acc) auto

lemma running_best_append:
  "running_best sc (xs @ ys) acc = running_best sc ys (running_best sc xs acc)"
  by (induction xs arbitrary: acc) auto

lemma running_best_cases:
  "running_best sc cs acc = acc
   \<or> (\<exists>c\<in>set cs. running_best sc cs acc = (sc c, Some c) \<and> fst acc < sc c)"
proof (induction cs arbitrary: acc)
  case Nil
  then show ?case by simp
next
  case (Cons c cs)
  let ?a = "if sc c > fst acc then (sc c, Some c) else acc"
  from Cons.IH[of ?a] show ?case
  proof
    assume "running_best sc cs ?a = ?a"
    then show ?thesis by (cases "sc c > fst acc") auto
  next
    assume "\<exists>x\<in>set cs. running_best sc cs ?a = (sc x, Some x) \<and> fst ?a < sc x"
    then obtain x :: KeypointData where x: "x \<in> set cs" "running_best sc cs ?a = (sc x, Some x)"
      "fst ?a < sc x" by blast
    have "fst acc \<le> fst ?a" by simp
    with x(3) have "fst acc < sc x" by linarith
    with x(1,2) show ?thesis by auto
  qed
qed

lemma running_best_max: "c \<in> set cs \<Longrightarrow> sc c \<le> fst (running_best sc cs acc)"
proof (induction cs arbitrary: acc)
  case Nil
  then show ?case by simp
next
  case (Cons x cs)
  let ?a = "if sc x > fst acc then (sc x, Some x) else acc"
  show ?case
  proof (cases "c = x")
    case True
    have "sc x \<le> fst ?a" by simp
    also have "\<dots> \<le> fst (running_best sc cs ?a)" by (rule running_best_ge)
    finally show ?thesis using True by simp
  next
    case False
    with Cons.prems have "c \<in> set cs" by simp
    from Cons.IH[OF this, of ?a] show ?thesis by simp
  qed
qed

lemma running_best_gt_iff:
  "fst acc < fst (running_best sc cs acc) \<longleftrightarrow> (\<exists>c\<in>set cs. fst acc < sc c)"
proof
  assume l: "fst acc < fst (running_best sc cs acc)"
  from running_best_cases[of sc cs acc] show "\<exists>c\<in>set cs. fst acc < sc c"
  proof
    assume "running_best sc cs acc = acc"
    with l show ?thesis by simp
  next
    assume "\<exists>c\<in>set cs. running_best sc cs acc = (sc c, Some c) \<and> fst acc < sc c"
    then show ?thesis by blast
  qed
next
  assume "\<exists>c\<in>set cs. fst acc < sc c"
  then obtain c :: KeypointData where c: "c \<in> set cs" "fst acc < sc c" by blast
  from running_best_max[OF c(1), of sc acc] c(2)
  show "fst acc < fst (running_best sc cs acc)" by linarith
qed

lemma running_best_first:
  assumes "fst acc < sc c" "\<forall>x\<in>set xs. sc x < sc c" "\<forall>y\<in>set ys. sc y \<le> sc c"
  shows "running_best sc (xs @ c # ys) acc = (sc c, Some c)"
proof -
  have lt: "fst (running_best sc xs acc) < sc c"
    using running_best_cases[of sc xs acc] assms(1,2) by auto
  have "running_best sc (xs @ c # ys) acc
          = running_best sc ys (sc c, Some c)"
    using lt by (simp add: running_best_append)
  also have "\<dots> = (sc c, Some c)" using assms(3) by (intro running_best_unchanged) simp
  finally show ?thesis .
qed


lemma length_mark [simp]: "length (mark cs fl) = length fl"
  unfolding mark_def by (induction cs arbitrary: fl) auto

lemma mark_Cons: "mark (c # cs) fl = mark cs (fl[index c := True])"
  by (simp add: mark_def)

lemma mark_Nil [simp]: "mark [] fl = fl"
  by (simp add: mark_def)

lemma mark_append: "mark (xs @ ys) fl = mark ys (mark xs fl)"
  by (simp add: mark_def)

lemma mark_nth:
  "j < length fl \<Longrightarrow> mark cs fl ! j \<longleftrightarrow> fl ! j \<or> j \<in> index ` set cs"
proof (induction cs arbitrary: fl)
  case Nil
  then show ?case by simp
next
  case (Cons c cs)
  have "mark (c # cs) fl ! j \<longleftrightarrow> fl[index c := True] ! j \<or> j \<in> index ` set cs"
    unfolding mark_Cons using Cons.prems by (intro Cons.IH) simp
  also have "\<dots> \<longleftrightarrow> fl ! j \<or> j \<in> index ` set (c # cs)"
    using Cons.prems by (cases "j = index c") auto
  finally show ?case .
qed

lemma mark_replicate:
  "mark cs (replicate n False) = map (\<lambda>j. j \<in> index ` set cs) [0..<n]"
  by (rule nth_equalityI) (simp_all add: mark_nth)

lemma small_body_skip:
  "\<not> in_columns p (kSmallSearchDistance K) c \<or> (index c < length matched \<and> matched ! index c)
   \<Longrightarrow> small_window_body K L n fr p dk matched c s = Inr s"
  by (auto simp: small_window_body_def in_columns_def Let_def)

lemma small_body_score:
  "in_columns p (kSmallSearchDistance K) c \<Longrightarrow> index c < length matched \<Longrightarrow> \<not> matched ! index c
   \<Longrightarrow> small_window_body K L n fr p dk matched c s
         = score_corner L n fr p dk (kSmallSearchDistance K) c s"
  by (auto simp: small_window_body_def in_columns_def Let_def)

lemma small_body_Inr:
  assumes "small_window_body K L n fr p dk matched c s = Inr t"
  shows "(in_columns p (kSmallSearchDistance K) c \<and> \<not> matched ! index c
            \<and> score_corner L n fr p dk (kSmallSearchDistance K) c s = Inr t)
         \<or> (\<not> (in_columns p (kSmallSearchDistance K) c \<and> \<not> matched ! index c) \<and> t = s)"
  using assms by (auto simp: small_window_body_def in_columns_def Let_def split: if_splits)

lemma large_body_Inr:
  assumes "large_window_body K L n fr p dk matched c s = Inr t"
  shows "index c < length (processed_corners_kp1 s) \<and>
         ((\<not> processed_corners_kp1 s ! index c \<and> \<not> matched ! index c
            \<and> in_columns p (kLargeSearchDistance K) c
            \<and> score_corner L n fr p dk (kLargeSearchDistance K) c s = Inr t)
         \<or> (\<not> (\<not> processed_corners_kp1 s ! index c \<and> \<not> matched ! index c
            \<and> in_columns p (kLargeSearchDistance K) c) \<and> t = s))"
  using assms by (auto simp: large_window_body_def in_columns_def Let_def split: if_splits)

lemma large_body_skip:
  "index c < length (processed_corners_kp1 s) \<Longrightarrow> index c < length matched \<Longrightarrow>
   processed_corners_kp1 s ! index c \<or> matched ! index c
     \<or> \<not> in_columns p (kLargeSearchDistance K) c
   \<Longrightarrow> large_window_body K L n fr p dk matched c s = Inr s"
  by (auto simp: large_window_body_def in_columns_def Let_def)

lemma large_body_score:
  "index c < length (processed_corners_kp1 s) \<Longrightarrow> index c < length matched \<Longrightarrow>
   \<not> processed_corners_kp1 s ! index c \<Longrightarrow> \<not> matched ! index c
   \<Longrightarrow> in_columns p (kLargeSearchDistance K) c
   \<Longrightarrow> large_window_body K L n fr p dk matched c s
         = score_corner L n fr p dk (kLargeSearchDistance K) c s"
  by (auto simp: large_window_body_def in_columns_def Let_def)

text \<open>The narrow loop, when it returns.\<close>

lemma search_small_spec:
  assumes "search_window (small_window_body K L n fr p dk matched) its s = Inr s'"
  shows "(best_score s', it_best s')
            = running_best (match_score L fr dk) (narrow_candidates K p matched its)
                (best_score s, it_best s)
       \<and> found s' = (found s \<or> best_score s < best_score s')
       \<and> processed_corners_kp1 s' = mark (narrow_candidates K p matched its) (processed_corners_kp1 s)
       \<and> n_processed_corners s'
            = n_processed_corners s + int (length (narrow_candidates K p matched its))"
  using assms
proof (induction its arbitrary: s)
  case Nil
  then show ?case by (simp add: narrow_candidates_def)
next
  case (Cons c its)
  from Cons.prems obtain t :: SearchState where
    t: "small_window_body K L n fr p dk matched c s = Inr t"
    and rest: "search_window (small_window_body K L n fr p dk matched) its t = Inr s'"
    by (auto split: sum.splits)
  note IH = Cons.IH[OF rest]
  from IH have ge: "best_score t \<le> best_score s'"
    using running_best_ge[of "(best_score t, it_best t)" "match_score L fr dk"
            "narrow_candidates K p matched its"]
    by (metis fst_conv)
  from small_body_Inr[OF t] show ?case
  proof
    assume a: "in_columns p (kSmallSearchDistance K) c \<and> \<not> matched ! index c
                 \<and> score_corner L n fr p dk (kSmallSearchDistance K) c s = Inr t"
    then have cand: "narrow_candidates K p matched (c # its)
                        = c # narrow_candidates K p matched its"
      by (simp add: narrow_candidates_def)
    from a have sc: "score_corner L n fr p dk (kSmallSearchDistance K) c s = Inr t" by simp
    note st = score_corner_step[OF sc]
    have acc: "(if match_score L fr dk c > fst (best_score s, it_best s)
                then (match_score L fr dk c, Some c) else (best_score s, it_best s))
                 = (best_score t, it_best t)"
      using st by auto
    have f: "found s' = (found s \<or> best_score s < best_score s')"
      using IH st ge by auto
    show ?thesis
      unfolding cand running_best.simps acc
      using IH st f by (simp add: mark_Cons)
  next
    assume a: "\<not> (in_columns p (kSmallSearchDistance K) c \<and> \<not> matched ! index c) \<and> t = s"
    then have cand: "narrow_candidates K p matched (c # its)
                        = narrow_candidates K p matched its"
      by (auto simp: narrow_candidates_def)
    show ?thesis unfolding cand using IH a by simp
  qed
qed

text \<open>The wide loop, when it returns.\<close>

lemma unprocessed_candidates_update:
  assumes "index c \<notin> index ` set its"
  shows "unprocessed_candidates K p matched (fl[index c := True]) its
           = unprocessed_candidates K p matched fl its"
proof -
  have "fl[index c := True] ! index x = fl ! index x" if "x \<in> set its" for x :: KeypointData
  proof -
    from that assms have "index c \<noteq> index x" by auto
    then show ?thesis by (rule nth_list_update_neq)
  qed
  then show ?thesis
    unfolding unprocessed_candidates_def by (intro filter_cong) simp_all
qed

lemma search_large_spec:
  assumes "search_window (large_window_body K L n fr p dk matched) its s = Inr s'"
    and "distinct (map index its)"
  shows "(best_score s', it_best s')
            = running_best (match_score L fr dk)
                (unprocessed_candidates K p matched (processed_corners_kp1 s) its)
                (best_score s, it_best s)
       \<and> found s' = (found s \<or> best_score s < best_score s')
       \<and> processed_corners_kp1 s'
            = mark (unprocessed_candidates K p matched (processed_corners_kp1 s) its)
                (processed_corners_kp1 s)
       \<and> n_processed_corners s'
            = n_processed_corners s
              + int (length (unprocessed_candidates K p matched (processed_corners_kp1 s) its))
       \<and> (\<forall>c\<in>set its. index c < length (processed_corners_kp1 s))"
  using assms
proof (induction its arbitrary: s)
  case Nil
  then show ?case by (simp add: unprocessed_candidates_def)
next
  case (Cons c its)
  from Cons.prems(1) obtain t :: SearchState where
    t: "large_window_body K L n fr p dk matched c s = Inr t"
    and rest: "search_window (large_window_body K L n fr p dk matched) its t = Inr s'"
    by (auto split: sum.splits)
  from Cons.prems(2) have d: "distinct (map index its)" and notin: "index c \<notin> index ` set its"
    by auto
  note IH = Cons.IH[OF rest d]
  from IH have ge: "best_score t \<le> best_score s'"
    using running_best_ge[of "(best_score t, it_best t)" "match_score L fr dk"
            "unprocessed_candidates K p matched (processed_corners_kp1 t) its"]
    by (metis fst_conv)
  from large_body_Inr[OF t] have inb: "index c < length (processed_corners_kp1 s)" by simp
  from large_body_Inr[OF t] have
    "(\<not> processed_corners_kp1 s ! index c \<and> \<not> matched ! index c
            \<and> in_columns p (kLargeSearchDistance K) c
            \<and> score_corner L n fr p dk (kLargeSearchDistance K) c s = Inr t)
         \<or> (\<not> (\<not> processed_corners_kp1 s ! index c \<and> \<not> matched ! index c
            \<and> in_columns p (kLargeSearchDistance K) c) \<and> t = s)" by simp
  then show ?case
  proof
    assume a: "\<not> processed_corners_kp1 s ! index c \<and> \<not> matched ! index c
            \<and> in_columns p (kLargeSearchDistance K) c
            \<and> score_corner L n fr p dk (kLargeSearchDistance K) c s = Inr t"
    then have sc: "score_corner L n fr p dk (kLargeSearchDistance K) c s = Inr t" by simp
    note st = score_corner_step[OF sc]
    have pt: "processed_corners_kp1 t = (processed_corners_kp1 s)[index c := True]"
      using st by simp
    have cand: "unprocessed_candidates K p matched (processed_corners_kp1 s) (c # its)
                 = c # unprocessed_candidates K p matched (processed_corners_kp1 t) its"
      unfolding pt unprocessed_candidates_update[OF notin]
      using a by (simp add: unprocessed_candidates_def)
    have acc: "(if match_score L fr dk c > fst (best_score s, it_best s)
                then (match_score L fr dk c, Some c) else (best_score s, it_best s))
                 = (best_score t, it_best t)"
      using st by auto
    have f: "found s' = (found s \<or> best_score s < best_score s')"
      using IH st ge by auto
    have len: "\<forall>c\<in>set (c # its). index c < length (processed_corners_kp1 s)"
      using IH inb pt by simp
    show ?thesis
      unfolding cand running_best.simps acc
      using IH st f len by (simp add: mark_Cons)
  next
    assume a: "\<not> (\<not> processed_corners_kp1 s ! index c \<and> \<not> matched ! index c
            \<and> in_columns p (kLargeSearchDistance K) c) \<and> t = s"
    then have cand: "unprocessed_candidates K p matched (processed_corners_kp1 s) (c # its)
                        = unprocessed_candidates K p matched (processed_corners_kp1 s) its"
      by (auto simp: unprocessed_candidates_def)
    show ?thesis unfolding cand using IH a inb by simp
  qed
qed

lemma corners_ok_Cons:
  "corners_ok n L fr matched (c # its) \<longleftrightarrow>
     (index c < n \<and> index c < length matched
        \<and> index c < length (getDescriptors fr) \<and> L \<le> length (getDescriptors fr ! index c))
     \<and> corners_ok n L fr matched its"
  by (auto simp: corners_ok_def)

lemma search_small_total:
  assumes "corners_ok n L fr matched its" "L \<le> length dk"
    and "\<forall>c\<in>set (narrow_candidates K p matched its).
            best_score s < match_score L fr dk c
              \<longrightarrow> vec_diff_norm p (measurement c) < kSmallSearchDistance K * 2"
  shows "\<exists>s'. search_window (small_window_body K L n fr p dk matched) its s = Inr s'"
  using assms(1,3)
proof (induction its arbitrary: s)
  case Nil
  then show ?case by simp
next
  case (Cons c its)
  from Cons.prems(1) have ok: "index c < n" "index c < length matched"
    "index c < length (getDescriptors fr)" "L \<le> length (getDescriptors fr ! index c)"
    and oks: "corners_ok n L fr matched its"
    by (simp_all add: corners_ok_Cons)
  show ?case
  proof (cases "in_columns p (kSmallSearchDistance K) c \<and> \<not> matched ! index c")
    case True
    then have cand: "narrow_candidates K p matched (c # its)
                        = c # narrow_candidates K p matched its"
      by (simp add: narrow_candidates_def)
    from Cons.prems(2) have sane: "best_score s < match_score L fr dk c
              \<longrightarrow> vec_diff_norm p (measurement c) < kSmallSearchDistance K * 2"
      unfolding cand by simp
    from score_corner_total[OF ok(1,3,4) assms(2) sane] obtain t :: SearchState where
      t: "score_corner L n fr p dk (kSmallSearchDistance K) c s = Inr t" by blast
    have body: "small_window_body K L n fr p dk matched c s = Inr t"
      using True ok(2) t by (simp add: small_body_score)
    have ge: "best_score s \<le> best_score t" using score_corner_step[OF t] by simp
    have "\<forall>c\<in>set (narrow_candidates K p matched its).
            best_score t < match_score L fr dk c
              \<longrightarrow> vec_diff_norm p (measurement c) < kSmallSearchDistance K * 2"
      using Cons.prems(2) ge unfolding cand by auto
    from Cons.IH[OF oks this] body show ?thesis by simp
  next
    case False
    then have cand: "narrow_candidates K p matched (c # its)
                        = narrow_candidates K p matched its"
      by (auto simp: narrow_candidates_def)
    have body: "small_window_body K L n fr p dk matched c s = Inr s"
      using False ok(2) by (intro small_body_skip) auto
    from Cons.IH[OF oks] Cons.prems(2) body show ?thesis unfolding cand by simp
  qed
qed

lemma search_large_total:
  assumes "corners_ok n L fr matched its" "L \<le> length dk"
    and "\<forall>c\<in>set its. index c < length (processed_corners_kp1 s)"
    and "distinct (map index its)"
    and "\<forall>c\<in>set (unprocessed_candidates K p matched (processed_corners_kp1 s) its).
            best_score s < match_score L fr dk c
              \<longrightarrow> vec_diff_norm p (measurement c) < kLargeSearchDistance K * 2"
  shows "\<exists>s'. search_window (large_window_body K L n fr p dk matched) its s = Inr s'"
  using assms(1,3,4,5)
proof (induction its arbitrary: s)
  case Nil
  then show ?case by simp
next
  case (Cons c its)
  from Cons.prems(1) have ok: "index c < n" "index c < length matched"
    "index c < length (getDescriptors fr)" "L \<le> length (getDescriptors fr ! index c)"
    and oks: "corners_ok n L fr matched its"
    by (simp_all add: corners_ok_Cons)
  from Cons.prems(2) have inb: "index c < length (processed_corners_kp1 s)"
    and inbs: "\<forall>c\<in>set its. index c < length (processed_corners_kp1 s)" by simp_all
  from Cons.prems(3) have d: "distinct (map index its)" and notin: "index c \<notin> index ` set its"
    by auto
  show ?case
  proof (cases "\<not> processed_corners_kp1 s ! index c \<and> \<not> matched ! index c
                  \<and> in_columns p (kLargeSearchDistance K) c")
    case True
    have cand: "unprocessed_candidates K p matched (processed_corners_kp1 s) (c # its)
                 = c # unprocessed_candidates K p matched ((processed_corners_kp1 s)[index c := True]) its"
      unfolding unprocessed_candidates_update[OF notin]
      using True by (simp add: unprocessed_candidates_def)
    from Cons.prems(4) have sane: "best_score s < match_score L fr dk c
              \<longrightarrow> vec_diff_norm p (measurement c) < kLargeSearchDistance K * 2"
      unfolding cand by simp
    from score_corner_total[OF ok(1,3,4) assms(2) sane] obtain t :: SearchState where
      t: "score_corner L n fr p dk (kLargeSearchDistance K) c s = Inr t" by blast
    have body: "large_window_body K L n fr p dk matched c s = Inr t"
      using True ok(2) inb t by (simp add: large_body_score)
    note st = score_corner_step[OF t]
    have pt: "processed_corners_kp1 t = (processed_corners_kp1 s)[index c := True]"
      using st by simp
    have ge: "best_score s \<le> best_score t" using st by simp
    have 1: "\<forall>c\<in>set its. index c < length (processed_corners_kp1 t)"
      using inbs pt by simp
    have 2: "\<forall>c\<in>set (unprocessed_candidates K p matched (processed_corners_kp1 t) its).
            best_score t < match_score L fr dk c
              \<longrightarrow> vec_diff_norm p (measurement c) < kLargeSearchDistance K * 2"
      using Cons.prems(4) ge unfolding cand pt by auto
    from Cons.IH[OF oks 1 d 2] body show ?thesis by simp
  next
    case False
    then have cand: "unprocessed_candidates K p matched (processed_corners_kp1 s) (c # its)
                        = unprocessed_candidates K p matched (processed_corners_kp1 s) its"
      by (auto simp: unprocessed_candidates_def)
    have body: "large_window_body K L n fr p dk matched c s = Inr s"
      using False ok(2) inb by (intro large_body_skip) auto
    from Cons.IH[OF oks inbs d] Cons.prems(4) body show ?thesis unfolding cand by simp
  qed
qed


lemma distinct_corners_between:
  "distinct (map index kps) \<Longrightarrow> distinct (map index (corners_between kps a b))"
proof -
  assume "distinct (map index kps)"
  then have "distinct (drop a (take b (map index kps)))"
    by (intro distinct_drop distinct_take)
  then show ?thesis by (simp add: corners_between_def drop_map take_map)
qed

lemma set_corners_between: "set (corners_between kps a b) \<subseteq> set kps"
  unfolding corners_between_def
  using set_drop_subset[of a "take b kps"] set_take_subset[of b kps] by blast

lemma initial_search_state_simps:
  "best_score (initial_search_state K L n) = threshold K L"
  "it_best (initial_search_state K L n) = None"
  "found (initial_search_state K L n) = False"
  "n_processed_corners (initial_search_state K L n) = 0"
  "processed_corners_kp1 (initial_search_state K L n) = replicate n False"
  by (simp_all add: initial_search_state_def threshold_def)

lemma unprocessed_wide:
  assumes "\<forall>c\<in>set its. index c < n"
  shows "unprocessed_candidates K p matched (mark ES (replicate n False)) its
           = wide_candidates K p matched ES its"
  unfolding unprocessed_candidates_def wide_candidates_def
  by (rule filter_cong) (use assms in \<open>simp_all add: mark_nth\<close>)

lemma search_corners_unfold:
  assumes "search_rows K H (snd p) = Inr (a, b, c, d)"
  shows "search_corners K H L md fr LUT p dk matched =
     (case search_window (small_window_body K L (num_points_kp1 md) fr p dk matched)
             (corners_between (keypoints_kp1_by_y md) (LUT ! nat a) (LUT ! nat b))
             (initial_search_state K L (num_points_kp1 md)) of
        Inl e \<Rightarrow> Inl e
      | Inr s1 \<Rightarrow>
          if \<not> found s1 then
            search_window (large_window_body K L (num_points_kp1 md) fr p dk matched)
              (corners_between (keypoints_kp1_by_y md) (LUT ! nat c) (LUT ! nat d)) s1
          else Inr s1)"
  using assms by (simp add: search_corners_def Let_def)

lemma search_corners_narrow:
  assumes run: "search_corners K H L md fr LUT p dk matched = Inr s"
    and rows: "search_rows K H (snd p) = Inr (a, b, c, d)"
    and ES: "ES = narrow_candidates K p matched
                    (corners_between (keypoints_kp1_by_y md) (LUT ! nat a) (LUT ! nat b))"
    and ex: "\<exists>x\<in>set ES. threshold K L < match_score L fr dk x"
  shows "found s
       \<and> (best_score s, it_best s) = running_best (match_score L fr dk) ES (threshold K L, None)
       \<and> processed_corners_kp1 s = map (\<lambda>j. j \<in> index ` set ES) [0..<num_points_kp1 md]
       \<and> n_processed_corners s = int (length ES)"
proof -
  let ?s0 = "initial_search_state K L (num_points_kp1 md)"
  from run obtain s1 :: SearchState where
    s1: "search_window (small_window_body K L (num_points_kp1 md) fr p dk matched)
             (corners_between (keypoints_kp1_by_y md) (LUT ! nat a) (LUT ! nat b)) ?s0 = Inr s1"
    and s: "(if \<not> found s1 then
            search_window (large_window_body K L (num_points_kp1 md) fr p dk matched)
              (corners_between (keypoints_kp1_by_y md) (LUT ! nat c) (LUT ! nat d)) s1
          else Inr s1) = Inr s"
    unfolding search_corners_unfold[OF rows] by (auto split: sum.splits)
  note sp = search_small_spec[OF s1, unfolded initial_search_state_simps, folded ES]
  from sp have b: "best_score s1 = fst (running_best (match_score L fr dk) ES (threshold K L, None))"
    by (metis fst_conv)
  from ex have "threshold K L < best_score s1"
    unfolding b using running_best_gt_iff[of "(threshold K L, None)" "match_score L fr dk" ES]
    by simp
  with sp have f: "found s1" by simp
  with s have "s = s1" by simp
  with sp f show ?thesis by (simp add: mark_replicate)
qed

lemma search_corners_wide:
  assumes run: "search_corners K H L md fr LUT p dk matched = Inr s"
    and rows: "search_rows K H (snd p) = Inr (a, b, c, d)"
    and dist: "distinct (map index (keypoints_kp1_by_y md))"
    and ES: "ES = narrow_candidates K p matched
                    (corners_between (keypoints_kp1_by_y md) (LUT ! nat a) (LUT ! nat b))"
    and EW: "EW = wide_candidates K p matched ES
                    (corners_between (keypoints_kp1_by_y md) (LUT ! nat c) (LUT ! nat d))"
    and nex: "\<not> (\<exists>x\<in>set ES. threshold K L < match_score L fr dk x)"
  shows "found s = (\<exists>x\<in>set EW. threshold K L < match_score L fr dk x)
       \<and> (best_score s, it_best s) = running_best (match_score L fr dk) EW (threshold K L, None)
       \<and> processed_corners_kp1 s = map (\<lambda>j. j \<in> index ` set (ES @ EW)) [0..<num_points_kp1 md]
       \<and> n_processed_corners s = int (length ES) + int (length EW)"
proof -
  let ?s0 = "initial_search_state K L (num_points_kp1 md)"
  let ?near = "corners_between (keypoints_kp1_by_y md) (LUT ! nat c) (LUT ! nat d)"
  let ?sc = "match_score L fr dk"
  from run obtain s1 :: SearchState where
    s1: "search_window (small_window_body K L (num_points_kp1 md) fr p dk matched)
             (corners_between (keypoints_kp1_by_y md) (LUT ! nat a) (LUT ! nat b)) ?s0 = Inr s1"
    and s: "(if \<not> found s1 then
            search_window (large_window_body K L (num_points_kp1 md) fr p dk matched) ?near s1
          else Inr s1) = Inr s"
    unfolding search_corners_unfold[OF rows] by (auto split: sum.splits)
  note sp = search_small_spec[OF s1, unfolded initial_search_state_simps, folded ES]
  from sp have b: "best_score s1 = fst (running_best ?sc ES (threshold K L, None))"
    and i: "it_best s1 = snd (running_best ?sc ES (threshold K L, None))"
    by (metis fst_conv, metis snd_conv)
  from nex have le: "\<not> threshold K L < best_score s1"
    unfolding b using running_best_gt_iff[of "(threshold K L, None)" ?sc ES]
    by simp
  then have "fst (running_best ?sc ES (threshold K L, None)) \<le> fst (threshold K L, None :: KeypointData option)"
    unfolding b by simp
  from running_best_le_unchanged[OF this]
  have r1: "running_best ?sc ES (threshold K L, None) = (threshold K L, None)" .
  have b1: "best_score s1 = threshold K L" and i1: "it_best s1 = None"
    unfolding b i r1 by simp_all
  from sp le have nf: "\<not> found s1" by simp
  have p1: "processed_corners_kp1 s1 = mark ES (replicate (num_points_kp1 md) False)"
    and n1: "n_processed_corners s1 = int (length ES)"
    using sp by simp_all
  from s nf have
    l: "search_window (large_window_body K L (num_points_kp1 md) fr p dk matched) ?near s1 = Inr s"
    by simp
  note lp = search_large_spec[OF l distinct_corners_between[OF dist], unfolded b1 i1 p1 n1]
  from lp have inb: "\<forall>c\<in>set ?near. index c < num_points_kp1 md" by simp
  have cand: "unprocessed_candidates K p matched (mark ES (replicate (num_points_kp1 md) False)) ?near
                = EW"
    unfolding EW by (rule unprocessed_wide[OF inb])
  note lp' = lp[unfolded cand]
  from lp' have bs: "best_score s = fst (running_best ?sc EW (threshold K L, None))"
    by (metis fst_conv)
  have "found s = (threshold K L < best_score s)" using lp' nf by simp
  also have "\<dots> = (\<exists>x\<in>set EW. threshold K L < ?sc x)"
    unfolding bs using running_best_gt_iff[of "(threshold K L, None)" ?sc EW] by simp
  finally have f: "found s = (\<exists>x\<in>set EW. threshold K L < ?sc x)" .
  have m: "mark EW (mark ES (replicate (num_points_kp1 md) False))
            = map (\<lambda>j. j \<in> index ` set (ES @ EW)) [0..<num_points_kp1 md]"
    unfolding mark_append[symmetric] by (rule mark_replicate)
  from lp' f m show ?thesis by simp
qed

lemma corners_ok_subset:
  "corners_ok n L fr matched kps \<Longrightarrow> set its \<subseteq> set kps \<Longrightarrow> corners_ok n L fr matched its"
  unfolding corners_ok_def by blast

lemma search_corners_total:
  assumes rows: "search_rows K H (snd p) = Inr (a, b, c, d)"
    and dist: "distinct (map index (keypoints_kp1_by_y md))"
    and ok: "corners_ok (num_points_kp1 md) L fr matched (keypoints_kp1_by_y md)"
    and dk: "L \<le> length dk"
    and ES: "ES = narrow_candidates K p matched
                    (corners_between (keypoints_kp1_by_y md) (LUT ! nat a) (LUT ! nat b))"
    and EW: "EW = wide_candidates K p matched ES
                    (corners_between (keypoints_kp1_by_y md) (LUT ! nat c) (LUT ! nat d))"
    and sane_narrow: "\<forall>x\<in>set ES. threshold K L < match_score L fr dk x
                        \<longrightarrow> vec_diff_norm p (measurement x) < kSmallSearchDistance K * 2"
    and sane_wide: "(\<forall>x\<in>set ES. match_score L fr dk x \<le> threshold K L) \<longrightarrow>
                    (\<forall>x\<in>set EW. threshold K L < match_score L fr dk x
                        \<longrightarrow> vec_diff_norm p (measurement x) < kLargeSearchDistance K * 2)"
  shows "\<exists>s. search_corners K H L md fr LUT p dk matched = Inr s"
proof -
  let ?n = "num_points_kp1 md"
  let ?s0 = "initial_search_state K L ?n"
  let ?nearest = "corners_between (keypoints_kp1_by_y md) (LUT ! nat a) (LUT ! nat b)"
  let ?near = "corners_between (keypoints_kp1_by_y md) (LUT ! nat c) (LUT ! nat d)"
  let ?sc = "match_score L fr dk"
  have ok1: "corners_ok ?n L fr matched ?nearest" and ok2: "corners_ok ?n L fr matched ?near"
    by (rule corners_ok_subset[OF ok set_corners_between])+
  have "\<forall>x\<in>set (narrow_candidates K p matched ?nearest). best_score ?s0 < ?sc x
          \<longrightarrow> vec_diff_norm p (measurement x) < kSmallSearchDistance K * 2"
    using sane_narrow unfolding ES initial_search_state_simps .
  from search_small_total[OF ok1 dk this] obtain s1 :: SearchState where
    s1: "search_window (small_window_body K L ?n fr p dk matched) ?nearest ?s0 = Inr s1"
    by blast
  show ?thesis
  proof (cases "found s1")
    case True
    with s1 show ?thesis unfolding search_corners_unfold[OF rows] by simp
  next
    case False
    note sp = search_small_spec[OF s1, unfolded initial_search_state_simps, folded ES]
    from sp have b: "best_score s1 = fst (running_best ?sc ES (threshold K L, None))"
      by (metis fst_conv)
    from sp False have le: "\<not> threshold K L < best_score s1" by simp
    then have nex: "\<not> (\<exists>x\<in>set ES. threshold K L < ?sc x)"
      unfolding b using running_best_gt_iff[of "(threshold K L, None)" ?sc ES] by simp
    from le have "best_score s1 \<le> threshold K L" by simp
    moreover have "threshold K L \<le> best_score s1"
      unfolding b using running_best_ge[of "(threshold K L, None)" ?sc ES] by simp
    ultimately have b1: "best_score s1 = threshold K L" by simp
    have p1: "processed_corners_kp1 s1 = mark ES (replicate ?n False)" using sp by simp
    have inb: "\<forall>c\<in>set ?near. index c < ?n" using ok2 by (simp add: corners_ok_def)
    then have inb': "\<forall>c\<in>set ?near. index c < length (processed_corners_kp1 s1)"
      unfolding p1 by simp
    have cand: "unprocessed_candidates K p matched (processed_corners_kp1 s1) ?near = EW"
      unfolding EW p1 by (rule unprocessed_wide[OF inb])
    from nex have "\<forall>x\<in>set ES. ?sc x \<le> threshold K L" by auto
    with sane_wide have "\<forall>x\<in>set EW. threshold K L < ?sc x
                        \<longrightarrow> vec_diff_norm p (measurement x) < kLargeSearchDistance K * 2" by simp
    then have sane: "\<forall>x\<in>set (unprocessed_candidates K p matched (processed_corners_kp1 s1) ?near).
        best_score s1 < ?sc x \<longrightarrow> vec_diff_norm p (measurement x) < kLargeSearchDistance K * 2"
      unfolding cand b1 .
    from search_large_total[OF ok2 dk inb' distinct_corners_between[OF dist] sane]
    obtain s :: SearchState where
      "search_window (large_window_body K L ?n fr p dk matched) ?near s1 = Inr s" by blast
    with s1 False show ?thesis unfolding search_corners_unfold[OF rows] by simp
  qed
qed







section \<open>Evaluation of the two-phase examples\<close>

lemma gating_LUT:
  "corner_row_LUT (keypoints_kp1_by_y gating_matching_data) 12
     = [0, 0, 0, 0, 0, 1, 2, 3, 4, 4, 4, 4]"
  by code_simp


lemma gating_distance_12: "hammingDistance512 2 [0x0F, 0xFF] [0xF0, 0x0F] = Inr 12"
  by code_simp

lemma gating_distance_4: "hammingDistance512 2 [0x0F, 0xFF] [0x00, 0xFF] = Inr 4"
  by code_simp

lemma gating_distance_3: "hammingDistance512 2 [0x0F, 0xFF] [0x08, 0xFF] = Inr 3"
  by code_simp


lemma gating_scores:
  "match_score 2 gating_frame [0x0F, 0xFF] \<lparr>measurement = (5, 4), index = 0\<rparr> = 4"
  "match_score 2 gating_frame [0x0F, 0xFF] \<lparr>measurement = (5, 6), index = 3\<rparr> = 12"
  "match_score 2 gating_frame [0x0F, 0xFF] \<lparr>measurement = (8, 7), index = 2\<rparr> = 13"
  using hammingDistance512_Inr[OF gating_distance_12] hammingDistance512_Inr[OF gating_distance_4]
    hammingDistance512_Inr[OF gating_distance_3]
  by (simp_all add: match_score_def gating_frame_def)


lemma gating_threshold: "threshold example_constants_34 2 = 12"
  by (simp add: threshold_def example_constants_34_def trunc_to_int_def)


lemma gating_rows_5: "search_rows example_constants_34 12 5 = Inr (3, 8, 1, 10)"
  by (simp add: search_rows_def clamp_def trunc_to_int_def example_constants_34_def Let_def)

lemma gating_rows_7: "search_rows example_constants_34 12 7 = Inr (5, 10, 3, 11)"
  by (simp add: search_rows_def clamp_def trunc_to_int_def example_constants_34_def Let_def)


lemmas gating_defs =
  gating_matching_data_def example_constants_34_def gating_frame_def
  num_points_k_def num_points_kp1_def getDescriptor_def search_corners_def
  initial_search_state_def
  search_rows_def clamp_def trunc_to_int_def corners_between_def small_window_body_def
  large_window_body_def score_corner_def gating_distance_12 gating_distance_4 gating_distance_3
  vec_diff_norm_less_iff col_def row_def Let_def

lemma gating_search_wide:
  "search_corners example_constants_34 12 2 gating_matching_data gating_frame
     [0, 0, 0, 0, 0, 1, 2, 3, 4, 4, 4, 4] (5, 5) [0x0F, 0xFF] [False, True, False, False]
   = Inr \<lparr>found = True, n_processed_corners = 3,
          it_best = Some \<lparr>measurement = (8, 7), index = 2\<rparr>, best_score = 13,
          processed_corners_kp1 = [True, False, True, True]\<rparr>"
  by (simp add: gating_defs)

lemma gating_search_narrow:
  "search_corners example_constants_34 12 2 gating_matching_data gating_frame
     [0, 0, 0, 0, 0, 1, 2, 3, 4, 4, 4, 4] (7, 7) [0x0F, 0xFF] [False, True, False, False]
   = Inr \<lparr>found = True, n_processed_corners = 2,
          it_best = Some \<lparr>measurement = (8, 7), index = 2\<rparr>, best_score = 13,
          processed_corners_kp1 = [False, False, True, True]\<rparr>"
  by (simp add: gating_defs)





lemma gating_candidates:
  "narrow_candidates example_constants_34 (5, 5) [False, True, False, False]
     (corners_between (keypoints_kp1_by_y gating_matching_data) 0 4)
   = [\<lparr>measurement = (5, 4), index = 0\<rparr>, \<lparr>measurement = (5, 6), index = 3\<rparr>]"
  "wide_candidates example_constants_34 (5, 5) [False, True, False, False]
     [\<lparr>measurement = (5, 4), index = 0\<rparr>, \<lparr>measurement = (5, 6), index = 3\<rparr>]
     (corners_between (keypoints_kp1_by_y gating_matching_data) 0 4)
   = [\<lparr>measurement = (8, 7), index = 2\<rparr>]"
  "narrow_candidates example_constants_34 (7, 7) [False, True, False, False]
     (corners_between (keypoints_kp1_by_y gating_matching_data) 1 4)
   = [\<lparr>measurement = (5, 6), index = 3\<rparr>, \<lparr>measurement = (8, 7), index = 2\<rparr>]"
  "wide_candidates example_constants_34 (7, 7) [False, True, False, False]
     [\<lparr>measurement = (5, 6), index = 3\<rparr>, \<lparr>measurement = (8, 7), index = 2\<rparr>]
     (corners_between (keypoints_kp1_by_y gating_matching_data) 0 4)
   = [\<lparr>measurement = (5, 4), index = 0\<rparr>]"
  "narrow_candidates example_constants_34 (5, 5) [False, True, True, False]
     (corners_between (keypoints_kp1_by_y gating_matching_data) 0 4)
   = [\<lparr>measurement = (5, 4), index = 0\<rparr>, \<lparr>measurement = (5, 6), index = 3\<rparr>]"
  "wide_candidates example_constants_34 (5, 5) [False, True, True, False]
     [\<lparr>measurement = (5, 4), index = 0\<rparr>, \<lparr>measurement = (5, 6), index = 3\<rparr>]
     (corners_between (keypoints_kp1_by_y gating_matching_data) 0 4)
   = []"
  by (simp_all add: narrow_candidates_def wide_candidates_def in_columns_def corners_between_def
      gating_matching_data_def example_constants_34_def trunc_to_int_def col_def)

lemma gating_corners_ok:
  "corners_ok (num_points_kp1 gating_matching_data) 2 gating_frame [False, True, False, False]
     (keypoints_kp1_by_y gating_matching_data)"
  "corners_ok (num_points_kp1 gating_matching_data) 2 gating_frame [False, True, True, False]
     (keypoints_kp1_by_y gating_matching_data)"
  by (simp_all add: corners_ok_def gating_matching_data_def gating_frame_def num_points_kp1_def)

lemma gating_distinct: "distinct (map index (keypoints_kp1_by_y gating_matching_data))"
  by (simp add: gating_matching_data_def)

lemma gating_LUT_nth:
  "[0, 0, 0, 0, 0, 1, 2, 3, 4, 4, 4, 4] ! nat 1 = (0::nat)"
  "[0, 0, 0, 0, 0, 1, 2, 3, 4, 4, 4, 4] ! nat 3 = (0::nat)"
  "[0, 0, 0, 0, 0, 1, 2, 3, 4, 4, 4, 4] ! nat 5 = (1::nat)"
  "[0, 0, 0, 0, 0, 1, 2, 3, 4, 4, 4, 4] ! nat 8 = (4::nat)"
  "[0, 0, 0, 0, 0, 1, 2, 3, 4, 4, 4, 4] ! nat 10 = (4::nat)"
  "[0, 0, 0, 0, 0, 1, 2, 3, 4, 4, 4, 4] ! nat 11 = (4::nat)"
  by simp_all





lemma gating_near:
  "vec_diff_norm (5, 5) (8, 7) < kLargeSearchDistance example_constants_34 * 2"
  "vec_diff_norm (7, 7) (8, 7) < kSmallSearchDistance example_constants_34 * 2"
  by (simp_all add: vec_diff_norm_less_iff example_constants_34_def power2_eq_square)

section \<open>The acceptance threshold\<close>




section \<open>The gating of the wide phase\<close>

text \<open>
  C4. For every source keypoint, a search that returns has run the wide phase only if
  no candidate of the narrow phase scored above the threshold: when one did, the result
  is the running best over the narrow candidates, and the processed count and the
  processed flags are those of the narrow candidates alone. Otherwise the result is the
  running best over the wide candidates, which are the corners of the wide rows that
  were not examined in the narrow phase, that are not claimed and that lie in the wide
  column band; they are scored with the same score and the same strict comparison,
  starting from the threshold, and the processed count and flags are those of both
  phases. The search does return when its reads are in range and every candidate above
  the threshold passes the distance check of its phase.
\<close>

theorem wide_phase_gating:
  assumes rows: "search_rows K H (snd p) = Inr (nearest_top, nearest_bottom, near_top, near_bottom)"
    and dist: "distinct (map index (keypoints_kp1_by_y md))"
    and ES: "ES = narrow_candidates K p matched
               (corners_between (keypoints_kp1_by_y md) (LUT ! nat nearest_top) (LUT ! nat nearest_bottom))"
    and EW: "EW = wide_candidates K p matched ES
               (corners_between (keypoints_kp1_by_y md) (LUT ! nat near_top) (LUT ! nat near_bottom))"
  shows
    "(search_corners K H L md frame_next LUT p dk matched = Inr s \<longrightarrow>
        (if \<exists>x\<in>set ES. threshold K L < match_score L frame_next dk x
         then found s
            \<and> (best_score s, it_best s)
                = running_best (match_score L frame_next dk) ES (threshold K L, None)
            \<and> n_processed_corners s = int (length ES)
            \<and> processed_corners_kp1 s = map (\<lambda>j. j \<in> index ` set ES) [0..<num_points_kp1 md]
         else found s = (\<exists>x\<in>set EW. threshold K L < match_score L frame_next dk x)
            \<and> (best_score s, it_best s)
                = running_best (match_score L frame_next dk) EW (threshold K L, None)
            \<and> n_processed_corners s = int (length ES) + int (length EW)
            \<and> processed_corners_kp1 s
                = map (\<lambda>j. j \<in> index ` set (ES @ EW)) [0..<num_points_kp1 md]))
     \<and> (corners_ok (num_points_kp1 md) L frame_next matched (keypoints_kp1_by_y md)
        \<and> L \<le> length dk
        \<and> (\<forall>x\<in>set ES. threshold K L < match_score L frame_next dk x
                \<longrightarrow> vec_diff_norm p (measurement x) < kSmallSearchDistance K * 2)
        \<and> ((\<forall>x\<in>set ES. match_score L frame_next dk x \<le> threshold K L) \<longrightarrow>
             (\<forall>x\<in>set EW. threshold K L < match_score L frame_next dk x
                \<longrightarrow> vec_diff_norm p (measurement x) < kLargeSearchDistance K * 2)) \<longrightarrow>
        (\<exists>t. search_corners K H L md frame_next LUT p dk matched = Inr t))"
proof (intro conjI impI)
  assume run: "search_corners K H L md frame_next LUT p dk matched = Inr s"
  show "if \<exists>x\<in>set ES. threshold K L < match_score L frame_next dk x
         then found s
            \<and> (best_score s, it_best s)
                = running_best (match_score L frame_next dk) ES (threshold K L, None)
            \<and> n_processed_corners s = int (length ES)
            \<and> processed_corners_kp1 s = map (\<lambda>j. j \<in> index ` set ES) [0..<num_points_kp1 md]
         else found s = (\<exists>x\<in>set EW. threshold K L < match_score L frame_next dk x)
            \<and> (best_score s, it_best s)
                = running_best (match_score L frame_next dk) EW (threshold K L, None)
            \<and> n_processed_corners s = int (length ES) + int (length EW)
            \<and> processed_corners_kp1 s
                = map (\<lambda>j. j \<in> index ` set (ES @ EW)) [0..<num_points_kp1 md]"
  proof (cases "\<exists>x\<in>set ES. threshold K L < match_score L frame_next dk x")
    case True
    from search_corners_narrow[OF run rows ES True] True show ?thesis by simp
  next
    case False
    from search_corners_wide[OF run rows dist ES EW False] False show ?thesis by simp
  qed
next
  assume a: "corners_ok (num_points_kp1 md) L frame_next matched (keypoints_kp1_by_y md)
        \<and> L \<le> length dk
        \<and> (\<forall>x\<in>set ES. threshold K L < match_score L frame_next dk x
                \<longrightarrow> vec_diff_norm p (measurement x) < kSmallSearchDistance K * 2)
        \<and> ((\<forall>x\<in>set ES. match_score L frame_next dk x \<le> threshold K L) \<longrightarrow>
             (\<forall>x\<in>set EW. threshold K L < match_score L frame_next dk x
                \<longrightarrow> vec_diff_norm p (measurement x) < kLargeSearchDistance K * 2))"
  then have ok: "corners_ok (num_points_kp1 md) L frame_next matched (keypoints_kp1_by_y md)"
    and dk: "L \<le> length dk"
    and sn: "\<forall>x\<in>set ES. threshold K L < match_score L frame_next dk x
                \<longrightarrow> vec_diff_norm p (measurement x) < kSmallSearchDistance K * 2"
    and sw: "(\<forall>x\<in>set ES. match_score L frame_next dk x \<le> threshold K L) \<longrightarrow>
             (\<forall>x\<in>set EW. threshold K L < match_score L frame_next dk x
                \<longrightarrow> vec_diff_norm p (measurement x) < kLargeSearchDistance K * 2)"
    by simp_all
  from search_corners_total[OF rows dist ok dk ES EW sn sw]
  show "\<exists>t. search_corners K H L md frame_next LUT p dk matched = Inr t" .
qed

theorem wide_phase_gating_witness:
  "search_corners example_constants_34 12 2 gating_matching_data gating_frame
       [0, 0, 0, 0, 0, 1, 2, 3, 4, 4, 4, 4] (5, 5) [0x0F, 0xFF] [False, True, False, False]
     = Inr \<lparr>found = True, n_processed_corners = 3,
            it_best = Some \<lparr>measurement = (8, 7), index = 2\<rparr>, best_score = 13,
            processed_corners_kp1 = [True, False, True, True]\<rparr>
   \<and> narrow_candidates example_constants_34 (5, 5) [False, True, False, False]
         (corners_between (keypoints_kp1_by_y gating_matching_data) 0 4)
       = [\<lparr>measurement = (5, 4), index = 0\<rparr>, \<lparr>measurement = (5, 6), index = 3\<rparr>]
   \<and> wide_candidates example_constants_34 (5, 5) [False, True, False, False]
         [\<lparr>measurement = (5, 4), index = 0\<rparr>, \<lparr>measurement = (5, 6), index = 3\<rparr>]
         (corners_between (keypoints_kp1_by_y gating_matching_data) 0 4)
       = [\<lparr>measurement = (8, 7), index = 2\<rparr>]
   \<and> running_best (match_score 2 gating_frame [0x0F, 0xFF])
         [\<lparr>measurement = (8, 7), index = 2\<rparr>] (threshold example_constants_34 2, None)
       = (13, Some \<lparr>measurement = (8, 7), index = 2\<rparr>)
   \<and> search_corners example_constants_34 12 2 gating_matching_data gating_frame
       [0, 0, 0, 0, 0, 1, 2, 3, 4, 4, 4, 4] (7, 7) [0x0F, 0xFF] [False, True, False, False]
     = Inr \<lparr>found = True, n_processed_corners = 2,
            it_best = Some \<lparr>measurement = (8, 7), index = 2\<rparr>, best_score = 13,
            processed_corners_kp1 = [False, False, True, True]\<rparr>
   \<and> narrow_candidates example_constants_34 (7, 7) [False, True, False, False]
         (corners_between (keypoints_kp1_by_y gating_matching_data) 1 4)
       = [\<lparr>measurement = (5, 6), index = 3\<rparr>, \<lparr>measurement = (8, 7), index = 2\<rparr>]
   \<and> wide_candidates example_constants_34 (7, 7) [False, True, False, False]
         [\<lparr>measurement = (5, 6), index = 3\<rparr>, \<lparr>measurement = (8, 7), index = 2\<rparr>]
         (corners_between (keypoints_kp1_by_y gating_matching_data) 0 4)
       = [\<lparr>measurement = (5, 4), index = 0\<rparr>]
   \<and> running_best (match_score 2 gating_frame [0x0F, 0xFF])
         [\<lparr>measurement = (5, 6), index = 3\<rparr>, \<lparr>measurement = (8, 7), index = 2\<rparr>]
         (threshold example_constants_34 2, None)
       = (13, Some \<lparr>measurement = (8, 7), index = 2\<rparr>)"
proof -
  let ?A = "\<lparr>measurement = (5, 4), index = 0\<rparr>"
  let ?D = "\<lparr>measurement = (5, 6), index = 3\<rparr>"
  let ?C = "\<lparr>measurement = (8, 7), index = 2\<rparr>"
  let ?LUT = "[0, 0, 0, 0, 0, 1, 2, 3, 4, 4, 4, 4] :: nat list"
  let ?dk = "[0x0F, 0xFF] :: byte list"
  let ?sc = "match_score 2 gating_frame ?dk"
  let ?T = "threshold example_constants_34 2"
  note wide = wide_phase_gating[where K = example_constants_34 and H = 12 and p = "(5, 5)"
      and md = gating_matching_data and L = 2 and frame_next = gating_frame
      and matched = "[False, True, False, False]" and dk = ?dk and LUT = ?LUT
      and ES = "[?A, ?D]" and EW = "[?C]"
      and s = "\<lparr>found = True, n_processed_corners = 3, it_best = Some ?C, best_score = 13,
                 processed_corners_kp1 = [True, False, True, True]\<rparr>",
      unfolded snd_conv, OF gating_rows_5 gating_distinct,
      unfolded gating_LUT_nth, OF gating_candidates(1)[symmetric] gating_candidates(2)[symmetric]]
  have "\<exists>t. search_corners example_constants_34 12 2 gating_matching_data gating_frame
       ?LUT (5, 5) ?dk [False, True, False, False] = Inr t"
    by (rule wide[THEN conjunct2, rule_format])
      (simp add: gating_corners_ok gating_scores gating_threshold gating_near)
  then have run_wide: "search_corners example_constants_34 12 2 gating_matching_data gating_frame
       ?LUT (5, 5) ?dk [False, True, False, False]
     = Inr \<lparr>found = True, n_processed_corners = 3, it_best = Some ?C, best_score = 13,
            processed_corners_kp1 = [True, False, True, True]\<rparr>"
    using gating_search_wide by simp
  have no: "\<not> (\<exists>x\<in>set [?A, ?D]. ?T < ?sc x)"
    by (simp add: gating_scores gating_threshold)
  from wide[THEN conjunct1, rule_format, OF run_wide] no
  have best_wide: "running_best ?sc [?C] (?T, None) = (13, Some ?C)"
    by (simp del: running_best.simps)
  note narrow = wide_phase_gating[where K = example_constants_34 and H = 12 and p = "(7, 7)"
      and md = gating_matching_data and L = 2 and frame_next = gating_frame
      and matched = "[False, True, False, False]" and dk = ?dk and LUT = ?LUT
      and ES = "[?D, ?C]" and EW = "[?A]"
      and s = "\<lparr>found = True, n_processed_corners = 2, it_best = Some ?C, best_score = 13,
                 processed_corners_kp1 = [False, False, True, True]\<rparr>",
      unfolded snd_conv, OF gating_rows_7 gating_distinct,
      unfolded gating_LUT_nth, OF gating_candidates(3)[symmetric] gating_candidates(4)[symmetric]]
  have "\<exists>t. search_corners example_constants_34 12 2 gating_matching_data gating_frame
       ?LUT (7, 7) ?dk [False, True, False, False] = Inr t"
    by (rule narrow[THEN conjunct2, rule_format])
      (simp add: gating_corners_ok gating_scores gating_threshold gating_near)
  then have run_narrow: "search_corners example_constants_34 12 2 gating_matching_data gating_frame
       ?LUT (7, 7) ?dk [False, True, False, False]
     = Inr \<lparr>found = True, n_processed_corners = 2, it_best = Some ?C, best_score = 13,
            processed_corners_kp1 = [False, False, True, True]\<rparr>"
    using gating_search_narrow by simp
  have yes: "\<exists>x\<in>set [?D, ?C]. ?T < ?sc x"
    by (simp add: gating_scores gating_threshold)
  from narrow[THEN conjunct1, rule_format, OF run_narrow] yes
  have best_narrow: "running_best ?sc [?D, ?C] (?T, None) = (13, Some ?C)"
    by (simp del: running_best.simps)
  from run_wide best_wide run_narrow best_narrow gating_candidates(1-4)
  show ?thesis by (simp del: running_best.simps)
qed


section \<open>The checks of the facade\<close>

lemma track_checks:
  "track K camera sb md frame_k frame_ptr matches_ptr =
     (case (frame_ptr, getCameraGeometry frame_k, matches_ptr) of
        (Some frame_next, Some camera_k, Some old_matches) \<Rightarrow>
          (case getCameraGeometry frame_next of
             Some camera_next \<Rightarrow>
               if hasKeypointMeasurements frame_k \<and> hasKeypointMeasurements frame_next
                  \<and> getId camera = getId camera_k \<and> getId camera = getId camera_next
                  \<and> hasTrackIds frame_k \<and> hasTrackIds frame_next
                  \<and> getTimestampNanoseconds frame_next > getTimestampNanoseconds frame_k
                  \<and> hasDescriptors frame_next
                  \<and> getDescriptorsRows frame_next = getDescriptorSizeBytes frame_next
                  \<and> length (getKeypointMeasurements frame_next) = length (getDescriptors frame_next)
               then matchFeatures K camera sb md frame_next frame_k
               else Inl CheckFailed
           | None \<Rightarrow> Inl CheckFailed)
      | _ \<Rightarrow> Inl CheckFailed)"
  unfolding track_def
  by (auto split: option.splits)

text \<open>
  C9 at a frame k that lacks descriptors: all checks of \<^verbatim>\<open>track\<close> pass, the matcher
  runs and the call returns normally with an empty match list. \<^verbatim>\<open>track\<close> checks
  \<^verbatim>\<open>hasDescriptors\<close> for frame k+1 only.
\<close>

theorem track_frame_k_without_descriptors:
  "\<not> hasDescriptors example_frame_k_no_descriptors
   \<and> track example_constants example_camera None example_matching_data_no_descriptors
         example_frame_k_no_descriptors (Some example_frame_kp1) (Some [])
       = Inr ([], [], Some 2)"
  by (simp add: track_checks example_frame_k_no_descriptors_def example_frame_kp1_def
      example_camera_def matchFeatures_def example_matching_data_no_descriptors_def
      num_points_k_def num_points_kp1_def corner_row_LUT_eq Let_def)


section \<open>The identity case\<close>

lemma filter_dropWhile_sorted:
  "sorted (map f xs) \<Longrightarrow> filter (\<lambda>x. \<not> f x < (t::real)) xs = dropWhile (\<lambda>x. f x < t) xs"
proof (induction xs)
  case Nil
  then show ?case by simp
next
  case (Cons a xs)
  show ?case
  proof (cases "f a < t")
    case True
    with Cons show ?thesis by simp
  next
    case False
    with Cons.prems have "\<forall>x\<in>set xs. \<not> f x < t" by fastforce
    then have "filter (\<lambda>x. \<not> f x < t) xs = xs" by (simp add: filter_id_conv)
    with False show ?thesis by simp
  qed
qed

lemma corners_between_filter:
  assumes srt: "sorted (map row kps)" and ab: "a \<le> b"
  shows "corners_between kps (rows_below kps a) (rows_below kps b)
           = filter (\<lambda>kp. real a \<le> row kp \<and> row kp < real b) kps"
proof -
  let ?Pa = "\<lambda>kp. row kp < real a"
  let ?Pb = "\<lambda>kp. row kp < real b"
  let ?ys = "filter ?Pb kps"
  have tb: "take (rows_below kps b) kps = ?ys"
    by (simp add: rows_below_def takeWhile_eq_take[symmetric] filter_takeWhile_sorted[OF srt])
  have sys: "sorted (map row ?ys)" using srt by (simp add: sorted_map sorted_wrt_filter)
  have "filter ?Pa ?ys = filter ?Pa kps"
    using ab by (auto intro!: filter_cong)
  then have "takeWhile ?Pa ?ys = takeWhile ?Pa kps"
    by (simp add: filter_takeWhile_sorted[OF srt, symmetric] filter_takeWhile_sorted[OF sys, symmetric])
  then have "rows_below kps a = length (takeWhile ?Pa ?ys)" by (simp add: rows_below_def)
  then have "drop (rows_below kps a) ?ys = dropWhile ?Pa ?ys"
    by (simp add: dropWhile_eq_drop)
  also have "\<dots> = filter (\<lambda>kp. \<not> ?Pa kp) ?ys" by (rule filter_dropWhile_sorted[OF sys, symmetric])
  also have "\<dots> = filter (\<lambda>kp. real a \<le> row kp \<and> row kp < real b) kps"
    by (auto intro!: filter_cong)
  finally show ?thesis by (simp add: corners_between_def tb)
qed

lemma trunc_to_int_mono: "x \<le> y \<Longrightarrow> trunc_to_int x \<le> trunc_to_int y"
  unfolding trunc_to_int_def
  by (auto intro: floor_mono ceiling_mono) (metis ceiling_le_zero zero_le_floor order_trans not_le order_less_imp_le)

lemma trunc_to_int_lower: "x - 1 < real_of_int (trunc_to_int x)"
  unfolding trunc_to_int_def by (auto; linarith)

lemma trunc_to_int_upper: "real_of_int (trunc_to_int x) < x + 1"
  unfolding trunc_to_int_def by (auto; linarith)

lemma trunc_to_int_le: "0 \<le> x \<Longrightarrow> real_of_int (trunc_to_int x) \<le> x"
  unfolding trunc_to_int_def by simp

lemma trunc_to_int_nonneg: "0 \<le> x \<Longrightarrow> 0 \<le> trunc_to_int x"
  unfolding trunc_to_int_def by simp

lemma trunc_to_int_le_max: "real_of_int (trunc_to_int x) \<le> max x 0"
  unfolding trunc_to_int_def by (auto simp: max_def; linarith)

lemma clamp_ge: "0 \<le> U \<Longrightarrow> 0 \<le> clamp 0 U x"
  by (simp add: clamp_def)

lemma clamp_le: "clamp 0 U x \<le> U"
  by (simp add: clamp_def)

lemma clamp_mono: "x \<le> y \<Longrightarrow> clamp 0 U x \<le> clamp 0 U y"
  by (auto simp: clamp_def min_def max_def)

lemma search_rows_value:
  assumes H: "0 < H" and s: "0 \<le> kSmallSearchDistance K" and l: "0 \<le> kLargeSearchDistance K"
  shows "search_rows K H py =
     Inr (clamp 0 (int H - 1) (trunc_to_int (py + 0.5 - kSmallSearchDistance K)),
          min (clamp 0 (int H - 1) (trunc_to_int (py + 0.5 + kSmallSearchDistance K)) + 1) (int H - 1),
          clamp 0 (int H - 1) (trunc_to_int (py + 0.5 - kLargeSearchDistance K)),
          min (clamp 0 (int H - 1) (trunc_to_int (py + 0.5 + kLargeSearchDistance K)) + 1) (int H - 1))"
proof -
  have U: "0 \<le> int H - 1" using H by simp
  have m1: "clamp 0 (int H - 1) (trunc_to_int (py + 0.5 - kSmallSearchDistance K))
              \<le> clamp 0 (int H - 1) (trunc_to_int (py + 0.5 + kSmallSearchDistance K))"
    using s by (intro clamp_mono trunc_to_int_mono) simp
  have m2: "clamp 0 (int H - 1) (trunc_to_int (py + 0.5 - kLargeSearchDistance K))
              \<le> clamp 0 (int H - 1) (trunc_to_int (py + 0.5 + kLargeSearchDistance K))"
    using l by (intro clamp_mono trunc_to_int_mono) simp
  have lt: "\<And>x. clamp 0 (int H - 1) x < int H"
    using clamp_le[of "int H - 1"] by (simp add: order_le_less_trans)
  have mn: "\<And>x. min (clamp 0 (int H - 1) x) (int H - 1) = clamp 0 (int H - 1) x"
    using clamp_le[of "int H - 1"] by (simp add: min_def)
  show ?thesis
    unfolding search_rows_def Let_def
    using m1 m2 by (simp add: clamp_ge[OF U] lt mn)
qed

lemma search_rows_identity:
  assumes py: "0 \<le> py" "py < real H - 1"
    and s: "1 \<le> kSmallSearchDistance K" and l: "0 \<le> kLargeSearchDistance K"
  shows "\<exists>a b c d. search_rows K H py = Inr (a, b, c, d)
           \<and> 0 \<le> a \<and> a \<le> b \<and> b < int H
           \<and> real_of_int a \<le> py \<and> py < real_of_int b
           \<and> py - kSmallSearchDistance K - 1 / 2 < real_of_int a
           \<and> real_of_int b \<le> py + kSmallSearchDistance K + 3 / 2"
proof -
  define U where "U = int H - 1"
  define t0 where "t0 = trunc_to_int (py + 0.5 - kSmallSearchDistance K)"
  define t1 where "t1 = trunc_to_int (py + 0.5 + kSmallSearchDistance K)"
  have U: "py < real_of_int U" using py by (simp add: U_def)
  then have U1: "0 < U" using py by linarith
  then have H: "0 < H" by (simp add: U_def)
  have t01: "t0 \<le> t1" unfolding t0_def t1_def using s by (intro trunc_to_int_mono) simp
  have t0_lo: "py - kSmallSearchDistance K - 1 / 2 < real_of_int t0"
    using trunc_to_int_lower[of "py + 0.5 - kSmallSearchDistance K"] by (simp add: t0_def)
  have t0_hi: "real_of_int t0 \<le> py"
    using trunc_to_int_le_max[of "py + 0.5 - kSmallSearchDistance K"] s py
    by (simp add: t0_def max_def split: if_splits)
  have t1_lo: "py < real_of_int t1"
    using trunc_to_int_lower[of "py + 0.5 + kSmallSearchDistance K"] s by (simp add: t1_def)
  have t1_hi: "real_of_int t1 \<le> py + kSmallSearchDistance K + 1 / 2"
    using trunc_to_int_le[of "py + 0.5 + kSmallSearchDistance K"] s py by (simp add: t1_def)
  have t1_0: "0 \<le> t1" using t1_lo py by linarith
  define a where "a = clamp 0 U t0"
  define b where "b = min (clamp 0 U t1 + 1) U"
  from s have s0: "0 \<le> kSmallSearchDistance K" by simp
  obtain c d where run: "search_rows K H py = Inr (a, b, c, d)"
    using search_rows_value[OF H s0 l, of py] by (simp add: a_def b_def U_def t0_def t1_def)
  have "0 \<le> a" using U1 by (simp add: a_def clamp_def)
  moreover have "a \<le> b" using t01 U1 by (simp add: a_def b_def clamp_def min_def max_def)
  moreover have "b < int H" by (simp add: b_def U_def)
  moreover have "real_of_int a \<le> py"
  proof -
    have "a \<le> max t0 0" by (simp add: a_def clamp_def)
    then have "real_of_int a \<le> real_of_int (max t0 0)" by linarith
    also have "\<dots> \<le> py" using t0_hi py by (simp add: max_def)
    finally show ?thesis .
  qed
  moreover have "py < real_of_int b"
  proof -
    have "clamp 0 U t1 = min t1 U" using t1_0 by (simp add: clamp_def max_def)
    moreover have "py < real_of_int (min t1 U)" using t1_lo U by (simp add: min_def)
    ultimately have "py < real_of_int (clamp 0 U t1 + 1)" by simp
    with U show ?thesis by (simp add: b_def min_def)
  qed
  moreover have "py - kSmallSearchDistance K - 1 / 2 < real_of_int a"
  proof -
    have "a = t0 \<or> a = 0 \<or> a = U" by (auto simp: a_def clamp_def min_def max_def)
    moreover have "a \<ge> t0 \<or> a = U" by (auto simp: a_def clamp_def min_def max_def)
    ultimately show ?thesis using t0_lo U s py by (elim disjE) (simp_all; linarith)+
  qed
  moreover have "real_of_int b \<le> py + kSmallSearchDistance K + 3 / 2"
  proof -
    have "b \<le> t1 + 1" using t1_0 by (auto simp: b_def clamp_def min_def max_def)
    then have "real_of_int b \<le> real_of_int t1 + 1" by linarith
    with t1_hi show ?thesis by linarith
  qed
  ultimately show ?thesis using run by blast
qed

lemma differing_bits_eq_0: "differing_bits a b = 0 \<longleftrightarrow> a = b"
proof
  assume "differing_bits a b = 0"
  then have "\<forall>n<8. bit a n = bit b n"
    by (auto simp: differing_bits_def filter_empty_conv)
  then show "a = b" by (intro bit_word_eqI) simp
next
  assume "a = b"
  then show "differing_bits a b = 0" by (simp add: differing_bits_def)
qed

lemma hamming_spec_eq_0:
  assumes "length x = L" "length y = L"
  shows "hamming_spec L x y = 0 \<longleftrightarrow> x = y"
proof
  assume "hamming_spec L x y = 0"
  then have "\<forall>i<L. x ! i = y ! i"
    by (auto simp: hamming_spec_def sum_list_eq_0_iff differing_bits_eq_0)
  with assms show "x = y" by (intro nth_equalityI) simp_all
next
  assume "x = y"
  then show "hamming_spec L x y = 0"
    by (simp add: hamming_spec_def sum_list_eq_0_iff differing_bits_eq_0)
qed

lemma narrow_norm:
  assumes s: "4 \<le> (s::real)" and dx: "\<bar>dx\<bar> < s + 1" and dy: "\<bar>dy\<bar> < s + 3 / 2"
  shows "sqrt (dx\<^sup>2 + dy\<^sup>2) < s * 2"
proof -
  have "\<bar>dx\<bar>\<^sup>2 < (s + 1)\<^sup>2" using dx by (intro power_strict_mono) simp_all
  then have x2: "dx\<^sup>2 < (s + 1)\<^sup>2" by simp
  have "\<bar>dy\<bar>\<^sup>2 < (s + 3 / 2)\<^sup>2" using dy by (intro power_strict_mono) simp_all
  then have y2: "dy\<^sup>2 < (s + 3 / 2)\<^sup>2" by simp
  have ss: "4 * s \<le> s * s" using s by (intro mult_right_mono) simp_all
  have e1: "(s + 1)\<^sup>2 + (s + 3 / 2)\<^sup>2 = 2 * (s * s) + 5 * s + 13 / 4"
    by (simp add: power2_eq_square algebra_simps)
  have e2: "(s * 2)\<^sup>2 = 4 * (s * s)"
    by (simp add: power2_eq_square algebra_simps)
  have "(s + 1)\<^sup>2 + (s + 3 / 2)\<^sup>2 \<le> (s * 2)\<^sup>2"
    unfolding e1 e2 using ss s by linarith
  with x2 y2 have lt: "dx\<^sup>2 + dy\<^sup>2 < (s * 2)\<^sup>2" by linarith
  have "0 \<le> s * 2" using s by simp
  then show ?thesis using lt by (rule real_less_lsqrt)
qed

lemma column_window:
  assumes "\<not> (c < real_of_int (trunc_to_int (px - s)) \<or> c > real_of_int (trunc_to_int (px + s)))"
  shows "\<bar>px - c\<bar> < s + 1"
  using assms trunc_to_int_lower[of "px - s"] trunc_to_int_upper[of "px + s"] by linarith

lemma column_self:
  assumes "1 \<le> s"
  shows "\<not> (px < real_of_int (trunc_to_int (px - s)) \<or> px > real_of_int (trunc_to_int (px + s)))"
  using assms trunc_to_int_upper[of "px - s"] trunc_to_int_lower[of "px + s"] by linarith

lemma small_body_other:
  assumes idx: "index c < length matched" "index c < n"
    and d: "getDescriptor frame_next (index c) = Inr d" "length d = L" "length dk = L" "d \<noteq> dk"
    and t: "best_score t < int (L * 8)"
    and s: "4 \<le> kSmallSearchDistance K"
    and dy: "\<bar>snd p - row c\<bar> < kSmallSearchDistance K + 3 / 2"
  shows "\<exists>t'. small_window_body K L n frame_next p dk matched c t = Inr t'
              \<and> best_score t' < int (L * 8)"
proof -
  have h: "hammingDistance512 L dk d = Inr (hamming_spec L dk d)"
    using d by (intro hammingDistance512_eq) simp_all
  have pos: "0 < hamming_spec L dk d"
    using hamming_spec_eq_0[of dk L d] d by auto
  show ?thesis
  proof (cases "col c < real_of_int (trunc_to_int (fst p - kSmallSearchDistance K))
                \<or> col c > real_of_int (trunc_to_int (fst p + kSmallSearchDistance K))")
    case True
    then show ?thesis using t by (simp add: small_window_body_def Let_def)
  next
    case False
    then have "\<bar>fst p - col c\<bar> < kSmallSearchDistance K + 1" by (rule column_window)
    then have "sqrt ((fst p - col c)\<^sup>2 + (snd p - row c)\<^sup>2) < kSmallSearchDistance K * 2"
      using s dy by (intro narrow_norm)
    then have nrm: "vec_diff_norm p (measurement c) < kSmallSearchDistance K * 2"
      by (simp add: vec_diff_norm_def col_def row_def)
    show ?thesis using False idx d(1) h pos t nrm
      by (simp add: small_window_body_def score_corner_def Let_def)
  qed
qed

lemma hammingDistance512_self: "length x = L \<Longrightarrow> hammingDistance512 L x x = Inr 0"
  using hamming_spec_eq_0[of x L x] by (simp add: hammingDistance512_eq)

lemma small_body_self:
  assumes idx: "index c < length matched" "index c < n" "\<not> matched ! index c"
    and d: "getDescriptor frame_next (index c) = Inr dk" "length dk = L"
    and m: "measurement c = p"
    and t: "best_score t < int (L * 8)"
    and s: "4 \<le> kSmallSearchDistance K"
  shows "\<exists>t'. small_window_body K L n frame_next p dk matched c t = Inr t'
              \<and> found t' \<and> it_best t' = Some c \<and> best_score t' = int (L * 8)"
proof -
  have c: "\<not> (col c < real_of_int (trunc_to_int (fst p - kSmallSearchDistance K))
                \<or> col c > real_of_int (trunc_to_int (fst p + kSmallSearchDistance K)))"
    using column_self[of "kSmallSearchDistance K" "fst p"] s m by (simp add: col_def)
  have nrm: "vec_diff_norm p (measurement c) < kSmallSearchDistance K * 2"
    using s m by (simp add: vec_diff_norm_def)
  show ?thesis using c idx d t nrm hammingDistance512_self[OF d(2)]
    by (simp add: small_window_body_def score_corner_def Let_def)
qed

lemma small_body_after:
  assumes idx: "index c < length matched" "index c < n"
    and d: "getDescriptor frame_next (index c) = Inr d" "length d = L" "length dk = L"
    and t: "found t" "it_best t = Some b" "best_score t = int (L * 8)"
  shows "\<exists>t'. small_window_body K L n frame_next p dk matched c t = Inr t'
              \<and> found t' \<and> it_best t' = Some b \<and> best_score t' = int (L * 8)"
proof -
  have h: "hammingDistance512 L dk d = Inr (hamming_spec L dk d)"
    using d by (intro hammingDistance512_eq) simp_all
  show ?thesis using idx d(1) h t
    by (simp add: small_window_body_def score_corner_def Let_def)
qed

lemma search_window_total:
  assumes "J s" and "\<And>it t. it \<in> set its \<Longrightarrow> J t \<Longrightarrow> \<exists>t'. body it t = Inr t' \<and> J t'"
  shows "\<exists>s'. search_window body its s = Inr s' \<and> J s'"
  using assms
proof (induction its arbitrary: s)
  case Nil
  then show ?case by simp
next
  case (Cons it its)
  from Cons.prems(2)[of it s] Cons.prems(1) obtain t where t: "body it s = Inr t" "J t" by auto
  have "\<exists>s'. search_window body its t = Inr s' \<and> J s'"
  proof (rule Cons.IH[OF t(2)])
    fix it' u assume "it' \<in> set its" "J u"
    then show "\<exists>t'. body it' u = Inr t' \<and> J t'" using Cons.prems(2)[of it' u] by simp
  qed
  with t(1) show ?case by simp
qed

lemma search_window_append:
  "search_window body (xs @ ys) s =
     (case search_window body xs s of Inl e \<Rightarrow> Inl e | Inr t \<Rightarrow> search_window body ys t)"
  by (induction xs arbitrary: s) (auto split: sum.splits)

lemma small_window_identity:
  assumes cands: "\<And>c. c \<in> set its \<Longrightarrow> index c < n \<and>
        (\<exists>d. getDescriptor frame_next (index c) = Inr d \<and> length d = L \<and> (c \<noteq> self \<longrightarrow> d \<noteq> dk))
        \<and> \<bar>snd p - row c\<bar> < kSmallSearchDistance K + 3 / 2"
    and len: "length matched = n" and self: "self \<in> set its" "\<not> matched ! index self"
      "getDescriptor frame_next (index self) = Inr dk" "length dk = L" "measurement self = p"
    and s: "4 \<le> kSmallSearchDistance K" and s0: "best_score s0 < int (L * 8)"
  shows "\<exists>s'. search_window (small_window_body K L n frame_next p dk matched) its s0 = Inr s'
           \<and> found s' \<and> it_best s' = Some self \<and> best_score s' = int (L * 8)"
proof -
  let ?body = "small_window_body K L n frame_next p dk matched"
  from split_list_first[OF self(1)] obtain pre post where
    its: "its = pre @ self # post" and pre: "self \<notin> set pre" by blast
  have "\<exists>s1. search_window ?body pre s0 = Inr s1 \<and> best_score s1 < int (L * 8)"
  proof (rule search_window_total[where J = "\<lambda>t::SearchState. best_score t < int (L * 8)", OF s0])
    fix c and t :: SearchState
    assume c: "c \<in> set pre" and t: "best_score t < int (L * 8)"
    from c pre have ne: "c \<noteq> self" by auto
    from c its have "c \<in> set its" by simp
    from cands[OF this] ne obtain d where
      "index c < n" "getDescriptor frame_next (index c) = Inr d" "length d = L" "d \<noteq> dk"
      "\<bar>snd p - row c\<bar> < kSmallSearchDistance K + 3 / 2" by auto
    then show "\<exists>t'. ?body c t = Inr t' \<and> best_score t' < int (L * 8)"
      using len self(4) t s by (intro small_body_other) simp_all
  qed
  then obtain s1 where s1: "search_window ?body pre s0 = Inr s1" "best_score s1 < int (L * 8)"
    by blast
  have selfn: "index self < n" using cands[OF self(1)] by simp
  have "\<exists>s2. ?body self s1 = Inr s2 \<and> found s2 \<and> it_best s2 = Some self \<and> best_score s2 = int (L * 8)"
    using selfn len self s s1(2) by (intro small_body_self) simp_all
  then obtain s2 where s2: "?body self s1 = Inr s2" "found s2" "it_best s2 = Some self"
    "best_score s2 = int (L * 8)" by blast
  have "\<exists>s3. search_window ?body post s2 = Inr s3
          \<and> (found s3 \<and> it_best s3 = Some self \<and> best_score s3 = int (L * 8))"
  proof (rule search_window_total[where J = "\<lambda>t::SearchState. found t \<and> it_best t = Some self \<and> best_score t = int (L * 8)"])
    show "found s2 \<and> it_best s2 = Some self \<and> best_score s2 = int (L * 8)" using s2 by simp
  next
    fix c and t :: SearchState
    assume c: "c \<in> set post" and t: "found t \<and> it_best t = Some self \<and> best_score t = int (L * 8)"
    from c its have "c \<in> set its" by simp
    from cands[OF this] obtain d where
      "index c < n" "getDescriptor frame_next (index c) = Inr d" "length d = L" by auto
    then show "\<exists>t'. ?body c t = Inr t' \<and> (found t' \<and> it_best t' = Some self \<and> best_score t' = int (L * 8))"
      using len self(4) t by (intro small_body_after) simp_all
  qed
  then obtain s3 where "search_window ?body post s2 = Inr s3"
    "found s3" "it_best s3 = Some self" "best_score s3 = int (L * 8)" by blast
  then show ?thesis using s1(1) s2(1) by (simp add: its search_window_append)
qed

lemma trunc_to_int_less: "x < real_of_int m \<Longrightarrow> 0 < m \<Longrightarrow> trunc_to_int x < m"
  using trunc_to_int_le_max[of x] by (simp add: max_def split: if_splits)

lemma search_corners_identity:
  assumes srt: "sorted (map row (keypoints_kp1_by_y md))"
    and self: "self \<in> set (keypoints_kp1_by_y md)" "measurement self = p"
    and cands: "\<And>c. c \<in> set (keypoints_kp1_by_y md) \<Longrightarrow> index c < n \<and>
        (\<exists>d. getDescriptor frame_next (index c) = Inr d \<and> length d = L \<and> (c \<noteq> self \<longrightarrow> d \<noteq> dk))"
    and len: "length matched = n" "num_points_kp1 md = n"
    and free: "\<not> matched ! index self"
    and dk: "getDescriptor frame_next (index self) = Inr dk" "length dk = L"
    and py: "0 \<le> snd p" "snd p < real H - 1"
    and K: "4 \<le> kSmallSearchDistance K" "0 \<le> kLargeSearchDistance K"
      "roundThresholdProduct K (real (L * 8) * kMatchingThresholdBitsRatio K) < real (L * 8)"
    and L: "0 < L"
  shows "\<exists>s. search_corners K H L md frame_next (corner_row_LUT (keypoints_kp1_by_y md) H) p dk matched = Inr s
           \<and> found s \<and> it_best s = Some self \<and> best_score s = int (L * 8)"
proof -
  let ?kps = "keypoints_kp1_by_y md"
  let ?s = "kSmallSearchDistance K"
  from K have s1: "1 \<le> ?s" by simp
  from search_rows_identity[OF py s1 K(2)] obtain a b c d where
    rows: "search_rows K H (snd p) = Inr (a, b, c, d)"
    and ab: "0 \<le> a" "a \<le> b" "b < int H"
    and a_le: "real_of_int a \<le> snd p" and b_gt: "snd p < real_of_int b"
    and a_lo: "snd p - ?s - 1 / 2 < real_of_int a"
    and b_hi: "real_of_int b \<le> snd p + ?s + 3 / 2"
    by blast
  have na: "nat a < H" "nat b < H" "nat a \<le> nat b" using ab by simp_all
  have ra: "real (nat a) = real_of_int a" "real (nat b) = real_of_int b" using ab by simp_all
  let ?its = "corners_between ?kps (corner_row_LUT ?kps H ! nat a) (corner_row_LUT ?kps H ! nat b)"
  have its: "?its = filter (\<lambda>kp. real (nat a) \<le> row kp \<and> row kp < real (nat b)) ?kps"
    using na by (simp add: corner_row_LUT_eq corners_between_filter[OF srt])
  have rself: "row self = snd p" using self(2) by (simp add: row_def)
  have self_in: "self \<in> set ?its"
    using self(1) a_le b_gt by (simp add: its ra rself)
  have c_its: "\<And>c. c \<in> set ?its \<Longrightarrow> index c < n \<and>
        (\<exists>d. getDescriptor frame_next (index c) = Inr d \<and> length d = L \<and> (c \<noteq> self \<longrightarrow> d \<noteq> dk))
        \<and> \<bar>snd p - row c\<bar> < ?s + 3 / 2"
  proof -
    fix c assume "c \<in> set ?its"
    then have c: "c \<in> set ?kps" "real_of_int a \<le> row c" "row c < real_of_int b"
      by (simp_all add: its ra)
    from c(2,3) a_lo b_hi have "\<bar>snd p - row c\<bar> < ?s + 3 / 2" by linarith
    with cands[OF c(1)] show "index c < n \<and>
        (\<exists>d. getDescriptor frame_next (index c) = Inr d \<and> length d = L \<and> (c \<noteq> self \<longrightarrow> d \<noteq> dk))
        \<and> \<bar>snd p - row c\<bar> < ?s + 3 / 2" by simp
  qed
  let ?s0 = "initial_search_state K L n"
  have "roundThresholdProduct K (real (L * 8) * kMatchingThresholdBitsRatio K)
          < real_of_int (int (L * 8))"
    using K(3) by simp
  then have "trunc_to_int (roundThresholdProduct K (real (L * 8) * kMatchingThresholdBitsRatio K))
          < int (L * 8)"
    using L by (intro trunc_to_int_less) simp_all
  then have s0: "best_score ?s0 < int (L * 8)" by (simp add: initial_search_state_def)
  from small_window_identity[of ?its n frame_next L self dk p K matched ?s0,
      OF c_its len(1) self_in free dk self(2) K(1) s0]
  obtain s' where s': "search_window (small_window_body K L n frame_next p dk matched) ?its ?s0 = Inr s'"
    "found s'" "it_best s' = Some self" "best_score s' = int (L * 8)" by blast
  have "search_corners K H L md frame_next (corner_row_LUT ?kps H) p dk matched = Inr s'"
    using rows s'(1,2) by (simp add: search_corners_def Let_def len(2))
  with s' show ?thesis by blast
qed

lemma flags_update:
  "i < n \<Longrightarrow> (map (\<lambda>j. j < i) [0..<n])[i := True] = map (\<lambda>j. j < Suc i) [0..<n]"
  by (rule nth_equalityI) (auto simp: nth_list_update less_Suc_eq)

lemma match_loop_append:
  "match_loop body (xs @ ys) st =
     (case match_loop body xs st of Inl e \<Rightarrow> Inl e | Inr t \<Rightarrow> match_loop body ys t)"
  by (induction xs arbitrary: st) (auto split: sum.splits)

lemma match_keypoint_identity:
  assumes srt: "sorted (map row (keypoints_kp1_by_y md))"
    and idx: "distinct (map index (keypoints_kp1_by_y md))"
      "index ` set (keypoints_kp1_by_y md) = {..<n}"
    and meas: "\<forall>kp\<in>set (keypoints_kp1_by_y md).
       measurement kp = predicted_keypoint_positions_kp1 md ! index kp"
    and n: "length (predicted_keypoint_positions_kp1 md) = n"
    and rows: "\<forall>p\<in>set (predicted_keypoint_positions_kp1 md). 0 \<le> snd p \<and> snd p < real H - 1"
    and descs: "getDescriptors frame_next = getDescriptors frame_k"
      "length (getDescriptors frame_k) = n" "distinct (getDescriptors frame_k)"
      "\<forall>d\<in>set (getDescriptors frame_k). length d = L"
    and K: "4 \<le> kSmallSearchDistance K" "0 \<le> kLargeSearchDistance K"
      "roundThresholdProduct K (real (L * 8) * kMatchingThresholdBitsRatio K) < real (L * 8)"
    and L: "0 < L"
    and i: "i < n"
  shows "match_keypoint K H L md frame_next frame_k (corner_row_LUT (keypoints_kp1_by_y md) H) i
           (identity_state n L i) = Inr (identity_state n L (Suc i))"
proof -
  let ?kps = "keypoints_kp1_by_y md"
  let ?P = "predicted_keypoint_positions_kp1 md"
  let ?D = "getDescriptors frame_k"
  let ?matched = "map (\<lambda>j. j < i) [0..<n]"
  have "i \<in> index ` set ?kps" using idx(2) i by simp
  then obtain self where self: "self \<in> set ?kps" "index self = i" by auto
  have inj: "inj_on index (set ?kps)" using idx(1) by (simp add: distinct_map)
  have nk: "num_points_kp1 md = n"
  proof -
    have "length ?kps = card (set (map index ?kps))"
      using distinct_card[OF idx(1)] by simp
    also have "\<dots> = n" using idx(2) by simp
    finally show ?thesis by (simp add: num_points_kp1_def)
  qed
  have dk: "getDescriptor frame_k i = Inr (?D ! i)" using i descs(2) by (simp add: getDescriptor_def)
  have ms: "measurement self = ?P ! i" using meas self by auto
  have cands: "\<And>c. c \<in> set ?kps \<Longrightarrow> index c < n \<and>
        (\<exists>d. getDescriptor frame_next (index c) = Inr d \<and> length d = L \<and> (c \<noteq> self \<longrightarrow> d \<noteq> ?D ! i))"
  proof -
    fix c assume c: "c \<in> set ?kps"
    then have cn: "index c < n" using idx(2) by auto
    then have g: "getDescriptor frame_next (index c) = Inr (?D ! index c)"
      using descs(1,2) by (simp add: getDescriptor_def)
    have l: "length (?D ! index c) = L" using descs(2,4) cn by simp
    have "c \<noteq> self \<longrightarrow> ?D ! index c \<noteq> ?D ! i"
    proof
      assume "c \<noteq> self"
      then have "index c \<noteq> i" using inj c self by (auto dest: inj_onD)
      then show "?D ! index c \<noteq> ?D ! i"
        using descs(2,3) cn i by (simp add: nth_eq_iff_index_eq)
    qed
    with cn g l show "index c < n \<and>
        (\<exists>d. getDescriptor frame_next (index c) = Inr d \<and> length d = L \<and> (c \<noteq> self \<longrightarrow> d \<noteq> ?D ! i))"
      by simp
  qed
  have py: "0 \<le> snd (?P ! i)" "snd (?P ! i) < real H - 1" using rows i n by simp_all
  have free: "\<not> ?matched ! index self" using self(2) i by simp
  have dkn: "getDescriptor frame_next (index self) = Inr (?D ! i)"
    using self(2) i descs(1,2) by (simp add: getDescriptor_def)
  have dl: "length (?D ! i) = L" using descs(2,4) i by simp
  from search_corners_identity[of md self "?P ! i" n frame_next L "?D ! i" ?matched H K,
      OF srt self(1) ms cands _ nk free dkn dl py K L]
  obtain s where s: "search_corners K H L md frame_next (corner_row_LUT ?kps H) (?P ! i) (?D ! i) ?matched = Inr s"
    "found s" "it_best s = Some self" "best_score s = int (L * 8)" by auto
  have upt: "[0..<Suc i] = [0..<i] @ [i]" by simp
  show ?thesis
    unfolding match_keypoint_def Let_def identity_state_def
    using dk s self(2) i
    by (simp add: flags_update replicate_append_same upt del: upt_Suc)
qed

lemma match_loop_identity:
  assumes step: "\<And>i. i < n \<Longrightarrow> body i (identity_state n L i) = Inr (identity_state n L (Suc i))"
    and m: "m \<le> n"
  shows "match_loop body [0..<m] (identity_state n L 0) = Inr (identity_state n L m)"
  using m
proof (induction m)
  case 0
  then show ?case by simp
next
  case (Suc m)
  then have "match_loop body [0..<m] (identity_state n L 0) = Inr (identity_state n L m)" by simp
  moreover have "body m (identity_state n L m) = Inr (identity_state n L (Suc m))"
    using Suc.prems by (intro step) simp
  ultimately show ?case by (simp add: match_loop_append)
qed

lemma last_row_LUT:
  "corner_row_LUT (keypoints_kp1_by_y last_row_matching_data) 12
     = [0, 0, 0, 0, 0, 0, 0, 0, 0, 0, 0, 0]"
  by code_simp

text \<open>
  A keypoint in the last image row (row 11 of 12) is not matched at all, not even in
  the identity case: no window reaches it.
\<close>

lemma last_row_unmatched:
  "matchFeatures example_constants example_camera None last_row_matching_data
     last_row_frame last_row_frame
   = Inr ([], [NoMatchNumChecked 0], Some 2)"
  unfolding matchFeatures_def example_camera_def Camera.simps Let_def last_row_LUT
  by (simp add: last_row_matching_data_def last_row_frame_def example_constants_def
      num_points_k_def num_points_kp1_def match_keypoint_def getDescriptor_def search_corners_def
      initial_search_state_def search_rows_def clamp_def trunc_to_int_def corners_between_def Let_def)

lemma duplicate_LUT:
  "corner_row_LUT (keypoints_kp1_by_y duplicate_matching_data) 12
     = [0, 0, 0, 0, 0, 1, 2, 2, 2, 2, 2, 2]"
  by code_simp

text \<open>
  C7 as stated fails: with zero rotation, one frame used as frame k and as frame k+1 and
  every position predicted where it is, two neighbouring keypoints that share a
  descriptor are matched crosswise: source keypoint 0 is matched to target keypoint 1,
  which comes first in the order by row, and source keypoint 1 to target keypoint 0.
\<close>

theorem identity_case_counterexample:
  "predicted_keypoint_positions_kp1 duplicate_matching_data = getKeypointMeasurements duplicate_frame
   \<and> matchFeatures example_constants example_camera None duplicate_matching_data
         duplicate_frame duplicate_frame
       = Inr ([\<lparr>index_kp1 = 1, index_k = 0, score = 0\<rparr>, \<lparr>index_kp1 = 0, index_k = 1, score = 0\<rparr>],
              [MatchBits 16, MatchBits 16], Some 2)"
  unfolding matchFeatures_def example_camera_def Camera.simps Let_def duplicate_LUT
  by (simp add: duplicate_matching_data_def duplicate_frame_def example_constants_def
      num_points_k_def num_points_kp1_def match_keypoint_def getDescriptor_def search_corners_def
      initial_search_state_def search_rows_def clamp_def trunc_to_int_def corners_between_def
      small_window_body_def large_window_body_def score_corner_def hammingDistance512_self
      vec_diff_norm_less_iff col_def row_def Let_def)

text \<open>
  C7, amended. Under zero rotation, with the keypoints and descriptors of frame k+1
  identical to those of frame k and every predicted position equal to the source
  position, if moreover every keypoint row lies in \<open>[0, H - 1)\<close> for the image height
  \<open>H\<close>, the descriptors are pairwise distinct and of the byte length \<open>L > 0\<close> in use
  (\<open>8 L \<le> 512\<close>), the small search distance is at least 4, the large one is not
  negative and the threshold product of bit width and ratio, as computed in floating
  point, is below the bit width (with an exact product: the threshold ratio is below
  1), then every source keypoint is matched to itself, in ascending order, with Hamming
  distance 0 (full score in the statistics) and the placeholder score 0 in the record.
\<close>

theorem identity_case_matches_itself:
  assumes same_keypoints: "getKeypointMeasurements frame_next = getKeypointMeasurements frame_k"
    and same_descriptors: "getDescriptors frame_next = getDescriptors frame_k"
    and predicted: "predicted_keypoint_positions_kp1 md = getKeypointMeasurements frame_k"
    and by_y: "sorted (map row (keypoints_kp1_by_y md))"
      "distinct (map index (keypoints_kp1_by_y md))"
      "index ` set (keypoints_kp1_by_y md) = {..<n}"
      "\<forall>kp\<in>set (keypoints_kp1_by_y md).
          measurement kp = getKeypointMeasurements frame_next ! index kp"
    and n: "length (getKeypointMeasurements frame_k) = n" "length (getDescriptors frame_k) = n"
    and rows: "\<forall>p\<in>set (getKeypointMeasurements frame_k).
          0 \<le> snd p \<and> snd p < real (imageHeight camera) - 1"
    and descs: "distinct (getDescriptors frame_k)" "\<forall>d\<in>set (getDescriptors frame_k). length d = L"
    and size: "(case sb of None \<Rightarrow> descriptor_size_bytes md | Some b \<Rightarrow> b) = L" "0 < L" "L * 8 \<le> 512"
    and K: "4 \<le> kSmallSearchDistance K" "0 \<le> kLargeSearchDistance K"
      "roundThresholdProduct K (real (L * 8) * kMatchingThresholdBitsRatio K) < real (L * 8)"
  shows "matchFeatures K camera sb md frame_next frame_k =
           Inr (map (\<lambda>j. \<lparr>index_kp1 = int j, index_k = int j, score = 0\<rparr>) [0..<n],
                replicate n (MatchBits (int (L * 8))), Some L)
         \<and> (\<forall>j<n. hammingDistance512 L (getDescriptors frame_k ! j) (getDescriptors frame_next ! j) = Inr 0)"
proof
  let ?H = "imageHeight camera"
  let ?LUT = "corner_row_LUT (keypoints_kp1_by_y md) ?H"
  have meas: "\<forall>kp\<in>set (keypoints_kp1_by_y md).
       measurement kp = predicted_keypoint_positions_kp1 md ! index kp"
    using by_y(4) same_keypoints predicted by simp
  have np: "length (predicted_keypoint_positions_kp1 md) = n" using predicted n by simp
  have rows': "\<forall>p\<in>set (predicted_keypoint_positions_kp1 md). 0 \<le> snd p \<and> snd p < real ?H - 1"
    using rows predicted by simp
  have step: "\<And>i. i < n \<Longrightarrow>
      match_keypoint K ?H L md frame_next frame_k ?LUT i (identity_state n L i)
        = Inr (identity_state n L (Suc i))"
    by (rule match_keypoint_identity[OF by_y(1,2,3) meas np rows' same_descriptors n(2) descs K size(2)])
  have loop: "match_loop (match_keypoint K ?H L md frame_next frame_k ?LUT) [0..<n] (identity_state n L 0)
      = Inr (identity_state n L n)"
    by (rule match_loop_identity[where body = "match_keypoint K ?H L md frame_next frame_k ?LUT"
          and n = n and L = L, OF step]) simp_all
  have nk: "num_points_kp1 md = n"
  proof -
    have "length (keypoints_kp1_by_y md) = card (set (map index (keypoints_kp1_by_y md)))"
      using distinct_card[OF by_y(2)] by simp
    also have "\<dots> = n" using by_y(3) by simp
    finally show ?thesis by (simp add: num_points_kp1_def)
  qed
  have init: "\<lparr>is_keypoint_kp1_matched = replicate n False, matches_with_score_kp1_k = [],
               statistics = []\<rparr> = identity_state n L 0"
    by (simp add: identity_state_def map_replicate_const)
  show "matchFeatures K camera sb md frame_next frame_k =
           Inr (map (\<lambda>j. \<lparr>index_kp1 = int j, index_k = int j, score = 0\<rparr>) [0..<n],
                replicate n (MatchBits (int (L * 8))), Some L)"
    unfolding matchFeatures_def Let_def
    using size loop by (simp add: corner_row_LUT_eq nk num_points_k_def np init)
       (simp add: identity_state_def)
  show "\<forall>j<n. hammingDistance512 L (getDescriptors frame_k ! j) (getDescriptors frame_next ! j) = Inr 0"
    using descs(2) n(2) same_descriptors by (simp add: hammingDistance512_self)
qed

theorem identity_case_matches_itself_witness:
  "getKeypointMeasurements identity_frame = [(5, 6), (3, 2)]
   \<and> predicted_keypoint_positions_kp1 identity_matching_data = getKeypointMeasurements identity_frame
   \<and> sorted (map row (keypoints_kp1_by_y identity_matching_data))
   \<and> distinct (getDescriptors identity_frame)
   \<and> (4::real) \<le> kSmallSearchDistance identity_constants
   \<and> matchFeatures identity_constants example_camera None identity_matching_data
         identity_frame identity_frame
       = Inr ([\<lparr>index_kp1 = 0, index_k = 0, score = 0\<rparr>, \<lparr>index_kp1 = 1, index_k = 1, score = 0\<rparr>],
              [MatchBits 16, MatchBits 16], Some 2)
   \<and> hammingDistance512 2 (getDescriptors identity_frame ! 0) (getDescriptors identity_frame ! 0)
       = Inr 0"
proof -
  have h1: "getKeypointMeasurements identity_frame = getKeypointMeasurements identity_frame" by simp
  have h2: "getDescriptors identity_frame = getDescriptors identity_frame" by simp
  have h3: "predicted_keypoint_positions_kp1 identity_matching_data
              = getKeypointMeasurements identity_frame"
    by (simp add: identity_matching_data_def identity_frame_def)
  have h4: "sorted (map row (keypoints_kp1_by_y identity_matching_data))"
    by (simp add: identity_matching_data_def row_def)
  have h5: "distinct (map index (keypoints_kp1_by_y identity_matching_data))"
    by (simp add: identity_matching_data_def)
  have h6: "index ` set (keypoints_kp1_by_y identity_matching_data) = {..<2}"
    by (auto simp: identity_matching_data_def)
  have h7: "\<forall>kp\<in>set (keypoints_kp1_by_y identity_matching_data).
          measurement kp = getKeypointMeasurements identity_frame ! index kp"
    by (simp add: identity_matching_data_def identity_frame_def)
  have h8: "length (getKeypointMeasurements identity_frame) = 2"
    by (simp add: identity_frame_def)
  have h9: "length (getDescriptors identity_frame) = 2"
    by (simp add: identity_frame_def)
  have h10: "\<forall>p\<in>set (getKeypointMeasurements identity_frame).
          0 \<le> snd p \<and> snd p < real (imageHeight example_camera) - 1"
    by (simp add: identity_frame_def example_camera_def)
  have h11: "distinct (getDescriptors identity_frame)"
    by (simp add: identity_frame_def)
  have h12: "\<forall>d\<in>set (getDescriptors identity_frame). length d = 2"
    by (simp add: identity_frame_def)
  have h13: "(case None of None \<Rightarrow> descriptor_size_bytes identity_matching_data | Some b \<Rightarrow> b) = 2"
    by (simp add: identity_matching_data_def)
  have h14: "(0::nat) < 2" by simp
  have h15: "(2::nat) * 8 \<le> 512" by simp
  have h16: "4 \<le> kSmallSearchDistance identity_constants"
    by (simp add: identity_constants_def)
  have h17: "0 \<le> kLargeSearchDistance identity_constants"
    by (simp add: identity_constants_def)
  have h18: "roundThresholdProduct identity_constants
               (real (2 * 8) * kMatchingThresholdBitsRatio identity_constants) < real (2 * 8)"
    by (simp add: identity_constants_def)
  have upt2: "[0..<2] = [0, 1]" by (simp add: numeral_2_eq_2)
  show ?thesis
    using identity_case_matches_itself[OF h1 h2 h3 h4 h5 h6 h7 h8 h9 h10 h11 h12 h13 h14 h15
        h16 h17 h18] h3 h4 h11 h16
    by (simp add: upt2 numeral_2_eq_2) (simp add: identity_frame_def)
qed

end
